theory Spec2Isabelle
  imports Main "HOL-Library.Multiset"
begin

section \<open>hadoopy/\_hdfs.py: HDFS access through the hadoop command line\<close>

text \<open>
  The module drives the external \<^verbatim>\<open>hadoop\<close> tool through subprocesses.  The
  embedding makes the environment explicit: a \<open>world\<close> says what every command line
  does when it is spawned (exit code, bytes on stdout, bytes on stderr), how the typed
  bytes decoder of \<^verbatim>\<open>hadoopy.TypedBytesFile\<close> splits a byte stream into records,
  where the streaming jar lives, and which descriptors \<^verbatim>\<open>select.select\<close> reports
  ready in each round.  Exceptions are values of the type \<open>error\<close>.
\<close>

subsection \<open>Errors and the environment\<close>

datatype error =
    IOError string
  | IndexError
  | KeyError

text \<open>What \<^verbatim>\<open>p.communicate()\<close> and \<^verbatim>\<open>p.returncode\<close> give for a spawned command.\<close>

record proc_result =
  rcode :: int
  out_bytes :: string
  err_bytes :: string

text \<open>
  \<open>hadoop\<close>: the behaviour of a command line given to \<^verbatim>\<open>subprocess.Popen\<close>;
  \<open>tb_decode\<close>: the records \<^verbatim>\<open>TypedBytesFile.next\<close> returns from a byte stream
  before it raises \<^verbatim>\<open>StopIteration\<close> (the codec is not part of this module);
  \<open>hstreaming\<close>: the result of \<^verbatim>\<open>_find_hstreaming()\<close> (imported from
  \<^verbatim>\<open>hadoopy._runner\<close>);
  \<open>ready\<close>: the list \<^verbatim>\<open>select.select(read_fds, [], [])[0]\<close> in the given
  round of the main loop of \<^verbatim>\<open>readtb\<close>;
  \<open>exited\<close>: whether the process spawned from a command line has exited by the time
  it is polled for the \<open>i\<close>-th time (counting from 0).
\<close>

record 'kv world =
  hadoop :: "string \<Rightarrow> proc_result"
  tb_decode :: "string \<Rightarrow> 'kv list"
  hstreaming :: string
  ready :: "nat \<Rightarrow> nat set \<Rightarrow> nat list"
  exited :: "string \<Rightarrow> nat \<Rightarrow> bool"

subsection \<open>\_checked\_hadoop\_fs\_command\<close>

text \<open>
  \<^verbatim>\<open>
  def _checked_hadoop_fs_command(cmd, *args, **kw):
      p = _hadoop_fs_command(cmd, *args, **kw)
      stdout, stderr = p.communicate()
      rcode = p.returncode
      if rcode is not 0:
          raise IOError('Ran[%s]: %s' % (cmd, stderr))
      return rcode, stdout, stderr
  \<close>
\<close>

definition checked_hadoop_fs_command ::
  "'kv world \<Rightarrow> string \<Rightarrow> error + (int \<times> string \<times> string)" where
  "checked_hadoop_fs_command w cmd =
     (let p = hadoop w cmd;
          stdout = out_bytes p;
          stderr = err_bytes p;
          rc = rcode p
      in if rc \<noteq> 0 then Inl (IOError (''Ran['' @ cmd @ '']: '' @ stderr))
         else Inr (rc, stdout, stderr))"

subsection \<open>ls\<close>

text \<open>
  \<^verbatim>\<open>x.split(sep)\<close> for a one-character separator: the pieces between the
  separators, one more than there are separators.
\<close>

fun split_on :: "char \<Rightarrow> string \<Rightarrow> string list" where
  "split_on c [] = [[]]"
| "split_on c (x # xs) =
     (if x = c then [] # split_on c xs
      else (case split_on c xs of
              [] \<Rightarrow> [[x]]
            | p # ps \<Rightarrow> (x # p) # ps))"

definition is_digit :: "char \<Rightarrow> bool" where
  "is_digit c = (c \<in> set ''0123456789'')"

fun strip_prefix :: "string \<Rightarrow> string \<Rightarrow> string option" where
  "strip_prefix [] s = Some s"
| "strip_prefix (p # ps) [] = None"
| "strip_prefix (p # ps) (c # cs) = (if p = c then strip_prefix ps cs else None)"

text \<open>
  The pattern \<^verbatim>\<open>Found [0-9]+ items$\<close> matched at the start of \<open>s\<close>.  The digits
  are followed by a space, so the run of digits matched is the longest one.  The lines
  come from a split at newlines, so \<^verbatim>\<open>$\<close> is the end of the string.
\<close>

definition found_here :: "string \<Rightarrow> bool" where
  "found_here s =
     (case strip_prefix ''Found '' s of
        None \<Rightarrow> False
      | Some t \<Rightarrow> takeWhile is_digit t \<noteq> [] \<and> dropWhile is_digit t = '' items'')"

text \<open>\<^verbatim>\<open>found_line = lambda x: re.search('Found [0-9]+ items$', x)\<close>\<close>

fun found_line :: "string \<Rightarrow> bool" where
  "found_line [] = found_here []"
| "found_line (c # cs) = (found_here (c # cs) \<or> found_line cs)"

text \<open>\<^verbatim>\<open>x.split(' ')[-1]\<close>: the characters after the last space.\<close>

definition last_field :: "string \<Rightarrow> string" where
  "last_field x = rev (takeWhile (\<lambda>c. c \<noteq> CHR '' '') (rev x))"

text \<open>
  \<^verbatim>\<open>
  def ls(path):
      rcode, stdout, stderr = _checked_hadoop_fs_command('hadoop fs -ls %s' % path)
      found_line = lambda x: re.search('Found [0-9]+ items$', x)
      out = [x.split(' ')[-1] for x in stdout.split('\n')
             if x and not found_line(x)]
      return out
  \<close>
\<close>

definition ls :: "'kv world \<Rightarrow> string \<Rightarrow> error + string list" where
  "ls w path =
     (case checked_hadoop_fs_command w (''hadoop fs -ls '' @ path) of
        Inl e \<Rightarrow> Inl e
      | Inr (rc, stdout, stderr) \<Rightarrow>
          Inr (map last_field
                 (filter (\<lambda>x. x \<noteq> [] \<and> \<not> found_line x) (split_on CHR 0x0A stdout))))"

subsection \<open>writetb\<close>

text \<open>
  What \<^verbatim>\<open>writetb\<close> does to the loader process and to the pipe that feeds it,
  in order.
\<close>

datatype 'kv wevent =
    WSpawn string
  | WPoll "int option"
  | WWrite 'kv
  | WCommunicate
  | WFlush
  | WClose
  | WWait int

text \<open>\<^verbatim>\<open>p.poll()\<close>, called for the \<open>i\<close>-th time.\<close>

definition poll :: "'kv world \<Rightarrow> string \<Rightarrow> nat \<Rightarrow> int option" where
  "poll w cmd i = (if exited w cmd i then Some (rcode (hadoop w cmd)) else None)"

definition child_quit :: "'kv world \<Rightarrow> string \<Rightarrow> error" where
  "child_quit w cmd =
     IOError (''Child process quit while we were sending it data. STDOUT[''
              @ out_bytes (hadoop w cmd) @ ''] STDERR['' @ err_bytes (hadoop w cmd) @ '']'')"

text \<open>
  \<^verbatim>\<open>
  for kv in kvs:
      if p.poll() is not None:
          raise IOError('Child process quit while we were sending it data. STDOUT[%s] STDERR[%s]' % p.communicate())
      tb_fp.write(kv)
  \<close>
  The result is the exception raised, if any, and the events so far.
\<close>

fun write_loop ::
  "'kv world \<Rightarrow> string \<Rightarrow> nat \<Rightarrow> 'kv list \<Rightarrow> 'kv wevent list \<Rightarrow> error option \<times> 'kv wevent list" where
  "write_loop w cmd i [] tr = (None, tr)"
| "write_loop w cmd i (kv # kvs) tr =
     (if poll w cmd i \<noteq> None
      then (Some (child_quit w cmd), tr @ [WPoll (poll w cmd i), WCommunicate])
      else write_loop w cmd (Suc i) kvs (tr @ [WPoll None, WWrite kv]))"

text \<open>
  \<^verbatim>\<open>
  def writetb(path, kvs):
      read_fd, write_fd = os.pipe()
      read_fp = os.fdopen(read_fd, 'r')
      hstreaming = _find_hstreaming()
      cmd = 'hadoop jar %s loadtb %s' % (hstreaming, path)
      p = _hadoop_fs_command(cmd, stdin=read_fp)
      read_fp.close()
      with hadoopy.TypedBytesFile(write_fd=write_fd) as tb_fp:
          for kv in kvs:
              ...
          tb_fp.flush()
      p.wait()
  \<close>
  Leaving the \<^verbatim>\<open>with\<close> block closes the write end of the pipe, also when the
  block is left by the exception.  The value of \<^verbatim>\<open>p.wait()\<close> is not used.
\<close>

definition loadtb_cmd :: "'kv world \<Rightarrow> string \<Rightarrow> string" where
  "loadtb_cmd w path = ''hadoop jar '' @ hstreaming w @ '' loadtb '' @ path"

definition writetb :: "'kv world \<Rightarrow> string \<Rightarrow> 'kv list \<Rightarrow> error option \<times> 'kv wevent list" where
  "writetb w path kvs =
     (let cmd = loadtb_cmd w path
      in case write_loop w cmd 0 kvs [WSpawn cmd] of
           (Some e, tr) \<Rightarrow> (Some e, tr @ [WClose])
         | (None, tr) \<Rightarrow> (None, tr @ [WFlush, WClose, WWait (rcode (hadoop w cmd))]))"

subsection \<open>readtb: state\<close>

text \<open>
  What \<^verbatim>\<open>readtb\<close> does that can be seen from outside: listing a root,
  spawning a dump process whose pipe has the given descriptor, handing a record read
  from a descriptor to the caller, collecting the exit code of the process of a
  descriptor.
\<close>

datatype 'kv revent =
    Listed string
  | Spawned nat string
  | Yielded nat 'kv
  | Waited nat int

text \<open>
  The variables of \<^verbatim>\<open>readtb\<close> that its nested functions share.  A process
  handle is the command line it was spawned from; a \<^verbatim>\<open>TypedBytesFile\<close> opened
  for reading is the list of records it has not returned yet.  \<open>path_gen\<close> is the
  generator \<^verbatim>\<open>_path_gen()\<close>, suspended in its inner loop: the paths of the current
  root not opened yet and the roots not listed yet; \<open>None\<close> once the variable has been
  set to \<^verbatim>\<open>None\<close>.  \<open>next_fd\<close> is the descriptor the next \<^verbatim>\<open>os.pipe()\<close>
  returns for its read end: every pipe gets a descriptor not used before.
\<close>

record 'kv rstate =
  read_fds :: "nat set"
  procs :: "nat \<rightharpoonup> string"
  tb_fps :: "nat \<rightharpoonup> 'kv list"
  path_gen :: "(string list \<times> string list) option"
  next_fd :: nat
  rounds :: nat
  trace :: "'kv revent list"

definition dumptb_cmd :: "'kv world \<Rightarrow> string \<Rightarrow> string" where
  "dumptb_cmd w cur_path = ''hadoop jar '' @ hstreaming w @ '' dumptb '' @ cur_path"

text \<open>The records a dump process writes to its pipe, as the decoder returns them.\<close>

definition dumped :: "'kv world \<Rightarrow> string \<Rightarrow> 'kv list" where
  "dumped w cmd = tb_decode w (out_bytes (hadoop w cmd))"

text \<open>
  \<^verbatim>\<open>
  def _open_tb(cur_path):
      cmd = 'hadoop jar %s dumptb %s' % (hstreaming, cur_path)
      read_fd, write_fd = os.pipe()
      write_fp = os.fdopen(write_fd, 'w')
      p = _hadoop_fs_command(cmd, stdout=write_fp)
      write_fp.close()
      read_fds.add(read_fd)
      procs[read_fd] = p
      tb_fps[read_fd] = hadoopy.TypedBytesFile(read_fd=read_fd)
  \<close>
\<close>

definition open_tb :: "'kv world \<Rightarrow> string \<Rightarrow> 'kv rstate \<Rightarrow> 'kv rstate" where
  "open_tb w cur_path s =
     (let cmd = dumptb_cmd w cur_path;
          read_fd = next_fd s
      in s\<lparr>read_fds := insert read_fd (read_fds s),
            procs := (procs s)(read_fd \<mapsto> cmd),
            tb_fps := (tb_fps s)(read_fd \<mapsto> dumped w cmd),
            next_fd := Suc read_fd,
            trace := trace s @ [Spawned read_fd cmd]\<rparr>)"

subsection \<open>readtb: the path generator\<close>

text \<open>\<^verbatim>\<open>os.path.basename\<close>: the characters after the last slash.\<close>

definition basename :: "string \<Rightarrow> string" where
  "basename p = rev (takeWhile (\<lambda>c. c \<noteq> CHR ''/'') (rev p))"

text \<open>
  \<^verbatim>\<open>keep_file = lambda x: os.path.basename(x)[0] != '_'\<close>; indexing the empty
  string raises \<^verbatim>\<open>IndexError\<close>.
\<close>

definition keep_file :: "string \<Rightarrow> error + bool" where
  "keep_file x = (case basename x of [] \<Rightarrow> Inl IndexError | c # _ \<Rightarrow> Inr (c \<noteq> CHR ''_''))"

text \<open>The builtin \<^verbatim>\<open>filter\<close> of Python 2: it builds the whole list at once.\<close>

fun py_filter :: "('a \<Rightarrow> error + bool) \<Rightarrow> 'a list \<Rightarrow> error + 'a list" where
  "py_filter f [] = Inr []"
| "py_filter f (x # xs) =
     (case f x of
        Inl e \<Rightarrow> Inl e
      | Inr b \<Rightarrow> (case py_filter f xs of
                   Inl e \<Rightarrow> Inl e
                 | Inr ys \<Rightarrow> Inr (if b then x # ys else ys)))"

datatype 'a gen_step = GYield 'a | GStop | GRaise error

definition no_such_file :: "string \<Rightarrow> error" where
  "no_such_file root_path =
     IOError (''No such file or directory: '' @ [CHR 0x27] @ root_path @ [CHR 0x27])"

text \<open>
  \<^verbatim>\<open>
  def _path_gen():
      for root_path in paths:
          try:
              all_paths = ls(root_path)
          except IOError:
              raise IOError("No such file or directory: '%s'" % root_path)
          if ignore_logs:
              # Ignore any files that start with an underscore
              keep_file = lambda x: os.path.basename(x)[0] != '_'
              all_paths = filter(keep_file, all_paths)
          for cur_path in all_paths:
              yield _open_tb(cur_path)
  \<close>
  One call of \<^verbatim>\<open>path_gen.next()\<close>: the generator runs to its next
  \<^verbatim>\<open>yield\<close>, listing as many roots as it takes to find a path, opens that one
  path and is suspended again.
\<close>

fun path_gen_next ::
  "'kv world \<Rightarrow> bool \<Rightarrow> string list \<times> string list \<Rightarrow> 'kv rstate
     \<Rightarrow> (string list \<times> string list) gen_step \<times> 'kv rstate" where
  "path_gen_next w ignore_logs (cur_path # all_paths, roots) s =
     (GYield (all_paths, roots), open_tb w cur_path s)"
| "path_gen_next w ignore_logs ([], []) s = (GStop, s)"
| "path_gen_next w ignore_logs ([], root_path # roots) s =
     (let s1 = s\<lparr>trace := trace s @ [Listed root_path]\<rparr>
      in case ls w root_path of
           Inl e \<Rightarrow> (GRaise (no_such_file root_path), s1)
         | Inr all_paths \<Rightarrow>
             if ignore_logs
             then (case py_filter keep_file all_paths of
                     Inl e \<Rightarrow> (GRaise e, s1)
                   | Inr kept \<Rightarrow> path_gen_next w ignore_logs (kept, roots) s1)
             else path_gen_next w ignore_logs (all_paths, roots) s1)"

text \<open>
  \<^verbatim>\<open>
  try:
      path_gen.next()
  except (AttributeError, StopIteration):
      path_gen = None
  \<close>
  \<^verbatim>\<open>None.next()\<close> raises the \<^verbatim>\<open>AttributeError\<close>.  Any other exception
  leaves \<^verbatim>\<open>readtb\<close>.
\<close>

definition advance :: "'kv world \<Rightarrow> bool \<Rightarrow> 'kv rstate \<Rightarrow> error option \<times> 'kv rstate" where
  "advance w ignore_logs s =
     (case path_gen s of
        None \<Rightarrow> (None, s\<lparr>path_gen := None\<rparr>)
      | Some pg \<Rightarrow>
          (case path_gen_next w ignore_logs pg s of
             (GYield pg', s') \<Rightarrow> (None, s'\<lparr>path_gen := Some pg'\<rparr>)
           | (GStop, s') \<Rightarrow> (None, s'\<lparr>path_gen := None\<rparr>)
           | (GRaise e, s') \<Rightarrow> (Some e, s')))"

text \<open>\<^verbatim>\<open>for x in range(num_procs): ...\<close>, the number of rounds as a natural number.\<close>

fun fill :: "'kv world \<Rightarrow> bool \<Rightarrow> nat \<Rightarrow> 'kv rstate \<Rightarrow> error option \<times> 'kv rstate" where
  "fill w ignore_logs 0 s = (None, s)"
| "fill w ignore_logs (Suc n) s =
     (case advance w ignore_logs s of
        (Some e, s') \<Rightarrow> (Some e, s')
      | (None, s') \<Rightarrow> fill w ignore_logs n s')"

subsection \<open>readtb: the main loop\<close>

text \<open>
  How the body of the \<^verbatim>\<open>for\<close> loop over the ready descriptors is left: at the
  \<^verbatim>\<open>yield\<close>, with the record and the descriptors still to visit; by an exception;
  or at the end of the list.
\<close>

datatype 'kv for_result = FYield 'kv "nat list" | FRaise error | FDone

text \<open>
  \<^verbatim>\<open>
  for read_fd in cur_fds:
      p = procs[read_fd]
      tp_fp = tb_fps[read_fd]
      try:
          yield tp_fp.next()
      except StopIteration:
          p.wait()
          del procs[read_fd]
          del tb_fps[read_fd]
          read_fds.remove(read_fd)
          try:
              path_gen.next()
          except (AttributeError, StopIteration):
              path_gen = None
  \<close>
  A dictionary lookup and \<^verbatim>\<open>set.remove\<close> raise \<^verbatim>\<open>KeyError\<close> on a missing key.
\<close>

fun for_loop ::
  "'kv world \<Rightarrow> bool \<Rightarrow> nat list \<Rightarrow> 'kv rstate \<Rightarrow> 'kv for_result \<times> 'kv rstate" where
  "for_loop w ignore_logs [] s = (FDone, s)"
| "for_loop w ignore_logs (read_fd # cur_fds) s =
     (case procs s read_fd of
        None \<Rightarrow> (FRaise KeyError, s)
      | Some p \<Rightarrow>
          (case tb_fps s read_fd of
             None \<Rightarrow> (FRaise KeyError, s)
           | Some tp_fp \<Rightarrow>
               (case tp_fp of
                  kv # unread \<Rightarrow>
                    (FYield kv cur_fds,
                     s\<lparr>tb_fps := (tb_fps s)(read_fd \<mapsto> unread),
                       trace := trace s @ [Yielded read_fd kv]\<rparr>)
                | [] \<Rightarrow>
                    (let s1 = s\<lparr>trace := trace s @ [Waited read_fd (rcode (hadoop w p))]\<rparr>;
                         s2 = s1\<lparr>procs := (procs s1)(read_fd := None)\<rparr>;
                         s3 = s2\<lparr>tb_fps := (tb_fps s2)(read_fd := None)\<rparr>
                     in if read_fd \<notin> read_fds s3 then (FRaise KeyError, s3)
                        else (case advance w ignore_logs
                                     (s3\<lparr>read_fds := read_fds s3 - {read_fd}\<rparr>) of
                                (Some e, s') \<Rightarrow> (FRaise e, s')
                              | (None, s') \<Rightarrow> for_loop w ignore_logs cur_fds s')))))"

text \<open>
  \<^verbatim>\<open>
  while read_fds:
      cur_fds = select.select(read_fds, [], [])[0]
      for read_fd in cur_fds:
          ...
  \<close>
  run until the generator yields, raises or returns.  \<^verbatim>\<open>select\<close> has no timeout:
  it may block for ever, and then the loop does not return (\<open>None\<close>).
\<close>

partial_function (option) while_loop ::
  "'kv world \<Rightarrow> bool \<Rightarrow> 'kv rstate \<Rightarrow> ('kv for_result \<times> 'kv rstate) option" where
  "while_loop w ignore_logs s =
     (if read_fds s = {} then Some (FDone, s)
      else (let cur_fds = ready w (rounds s) (read_fds s)
            in case for_loop w ignore_logs cur_fds (s\<lparr>rounds := Suc (rounds s)\<rparr>) of
                 (FDone, s') \<Rightarrow> while_loop w ignore_logs s'
               | (FYield kv rest, s') \<Rightarrow> Some (FYield kv rest, s')
               | (FRaise e, s') \<Rightarrow> Some (FRaise e, s')))"

declare while_loop.simps [code]

subsection \<open>readtb: the generator\<close>

text \<open>\<^verbatim>\<open>paths: HDFS path (str) or paths (iterator)\<close>\<close>

datatype paths_arg = Path string | Paths "string list"

text \<open>
  Where the generator object stands: not started, suspended at the \<^verbatim>\<open>yield\<close>
  (with the ready descriptors not visited yet), or finished.
\<close>

datatype pc = Unstarted | Suspended "nat list" | Finished

record 'kv generator =
  arg_paths :: paths_arg
  arg_ignore_logs :: bool
  arg_num_procs :: int
  pc :: pc
  vars :: "'kv rstate"

definition no_vars :: "'kv rstate" where
  "no_vars = \<lparr>read_fds = {}, procs = Map.empty, tb_fps = Map.empty, path_gen = None,
              next_fd = 0, rounds = 0, trace = []\<rparr>"

text \<open>
  \<^verbatim>\<open>def readtb(paths, ignore_logs=True, num_procs=10)\<close>: the body contains
  \<^verbatim>\<open>yield\<close>, so the call only makes the generator object.
\<close>

definition readtb :: "paths_arg \<Rightarrow> bool \<Rightarrow> int \<Rightarrow> 'kv generator" where
  "readtb paths ignore_logs num_procs =
     \<lparr>arg_paths = paths, arg_ignore_logs = ignore_logs, arg_num_procs = num_procs,
      pc = Unstarted, vars = no_vars\<rparr>"

text \<open>What a call of \<^verbatim>\<open>next\<close> on the generator object gives.\<close>

datatype 'kv outcome = Item 'kv | StopIteration | Raised error

definition suspend ::
  "'kv generator \<Rightarrow> 'kv for_result \<times> 'kv rstate \<Rightarrow> 'kv outcome \<times> 'kv generator" where
  "suspend g r =
     (case r of
        (FYield kv rest, s') \<Rightarrow> (Item kv, g\<lparr>pc := Suspended rest, vars := s'\<rparr>)
      | (FRaise e, s') \<Rightarrow> (Raised e, g\<lparr>pc := Finished, vars := s'\<rparr>)
      | (FDone, s') \<Rightarrow> (StopIteration, g\<lparr>pc := Finished, vars := s'\<rparr>))"

text \<open>
  The start of the body, up to the main loop:
  \<^verbatim>\<open>
  if isinstance(paths, str):
      paths = [paths]
  ...
  path_gen = _path_gen()
  for x in range(num_procs):
      try:
          path_gen.next()
      except (AttributeError, StopIteration):
          path_gen = None
  \<close>
\<close>

definition roots_of :: "paths_arg \<Rightarrow> string list" where
  "roots_of paths = (case paths of Path p \<Rightarrow> [p] | Paths ps \<Rightarrow> ps)"

definition start :: "'kv world \<Rightarrow> 'kv generator \<Rightarrow> error option \<times> 'kv rstate" where
  "start w g =
     (let paths = roots_of (arg_paths g)
      in fill w (arg_ignore_logs g) (nat (arg_num_procs g))
           ((vars g)\<lparr>path_gen := Some ([], paths)\<rparr>))"

text \<open>\<^verbatim>\<open>g.next()\<close>: run the body from where it stands to the next \<^verbatim>\<open>yield\<close>.\<close>

definition readtb_next ::
  "'kv world \<Rightarrow> 'kv generator \<Rightarrow> ('kv outcome \<times> 'kv generator) option" where
  "readtb_next w g =
     (case pc g of
        Unstarted \<Rightarrow>
          (case start w g of
             (Some e, s1) \<Rightarrow> Some (Raised e, g\<lparr>pc := Finished, vars := s1\<rparr>)
           | (None, s1) \<Rightarrow> map_option (suspend g) (while_loop w (arg_ignore_logs g) s1))
      | Suspended rest \<Rightarrow>
          (case for_loop w (arg_ignore_logs g) rest (vars g) of
             (FDone, s') \<Rightarrow> map_option (suspend g) (while_loop w (arg_ignore_logs g) s')
           | r \<Rightarrow> Some (suspend g r))
      | Finished \<Rightarrow> Some (StopIteration, g))"

text \<open>
  The caller that takes everything, as \<^verbatim>\<open>list(readtb(...))\<close> does: the records
  received, how the iteration ended, and the generator as it is left.
\<close>

partial_function (option) drain ::
  "'kv world \<Rightarrow> 'kv generator \<Rightarrow> 'kv list \<Rightarrow> ('kv list \<times> error option \<times> 'kv generator) option" where
  "drain w g acc =
     (case readtb_next w g of
        None \<Rightarrow> None
      | Some (Item kv, g') \<Rightarrow> drain w g' (acc @ [kv])
      | Some (StopIteration, g') \<Rightarrow> Some (acc, None, g')
      | Some (Raised e, g') \<Rightarrow> Some (acc, Some e, g'))"

declare drain.simps [code]

definition read_all ::
  "'kv world \<Rightarrow> paths_arg \<Rightarrow> bool \<Rightarrow> int \<Rightarrow> ('kv list \<times> error option \<times> 'kv generator) option" where
  "read_all w paths ignore_logs num_procs = drain w (readtb paths ignore_logs num_procs) []"

section \<open>Notions used to state the properties\<close>

subsection \<open>Reading the event traces\<close>

text \<open>The records handed to the caller, each with the descriptor it was read from.\<close>

fun tagged :: "'kv revent list \<Rightarrow> (nat \<times> 'kv) list" where
  "tagged [] = []"
| "tagged (Yielded fd kv # tr) = (fd, kv) # tagged tr"
| "tagged (e # tr) = tagged tr"

definition yields :: "'kv revent list \<Rightarrow> 'kv list" where
  "yields tr = map snd (tagged tr)"

definition yields_of :: "nat \<Rightarrow> 'kv revent list \<Rightarrow> 'kv list" where
  "yields_of fd tr = map snd (filter (\<lambda>x. fst x = fd) (tagged tr))"

text \<open>The dump processes spawned: descriptor and command line.\<close>

fun spawns :: "'kv revent list \<Rightarrow> (nat \<times> string) list" where
  "spawns [] = []"
| "spawns (Spawned fd cmd # tr) = (fd, cmd) # spawns tr"
| "spawns (e # tr) = spawns tr"

text \<open>
  The dump processes that have been spawned and whose exit has not been collected, after
  the events of a trace.
\<close>

fun active_count :: "'kv revent list \<Rightarrow> int" where
  "active_count [] = 0"
| "active_count (Spawned fd cmd # tr) = active_count tr + 1"
| "active_count (Waited fd rc # tr) = active_count tr - 1"
| "active_count (e # tr) = active_count tr"

subsection \<open>What the path generator has still to give\<close>

text \<open>
  The paths one root contributes: the \<^verbatim>\<open>try\<close> block and the filter in the body of
  the loop of \<^verbatim>\<open>_path_gen\<close>.
\<close>

definition root_paths :: "'kv world \<Rightarrow> bool \<Rightarrow> string \<Rightarrow> error + string list" where
  "root_paths w ignore_logs root_path =
     (case ls w root_path of
        Inl e \<Rightarrow> Inl (no_such_file root_path)
      | Inr all_paths \<Rightarrow> if ignore_logs then py_filter keep_file all_paths else Inr all_paths)"

text \<open>The paths of the roots, in order, up to the first root that raises.\<close>

fun enumerated :: "'kv world \<Rightarrow> bool \<Rightarrow> string list \<Rightarrow> string list" where
  "enumerated w ignore_logs [] = []"
| "enumerated w ignore_logs (root_path # roots) =
     (case root_paths w ignore_logs root_path of
        Inl e \<Rightarrow> []
      | Inr ps \<Rightarrow> ps @ enumerated w ignore_logs roots)"

text \<open>The exception of the first root that raises, if there is one.\<close>

fun enumeration_error :: "'kv world \<Rightarrow> bool \<Rightarrow> string list \<Rightarrow> error option" where
  "enumeration_error w ignore_logs [] = None"
| "enumeration_error w ignore_logs (root_path # roots) =
     (case root_paths w ignore_logs root_path of
        Inl e \<Rightarrow> Some e
      | Inr ps \<Rightarrow> enumeration_error w ignore_logs roots)"

text \<open>The backlog: the paths the suspended path generator will still open.\<close>

definition queue :: "'kv world \<Rightarrow> bool \<Rightarrow> 'kv rstate \<Rightarrow> string list" where
  "queue w ignore_logs s =
     (case path_gen s of
        None \<Rightarrow> []
      | Some (cur, roots) \<Rightarrow> cur @ enumerated w ignore_logs roots)"

definition queue_error :: "'kv world \<Rightarrow> bool \<Rightarrow> 'kv rstate \<Rightarrow> error option" where
  "queue_error w ignore_logs s =
     (case path_gen s of
        None \<Rightarrow> None
      | Some (cur, roots) \<Rightarrow> enumeration_error w ignore_logs roots)"

text \<open>The records stored in a file, as its dump process delivers them.\<close>

definition file_records :: "'kv world \<Rightarrow> string \<Rightarrow> 'kv list" where
  "file_records w cur_path = dumped w (dumptb_cmd w cur_path)"

text \<open>
  \<^verbatim>\<open>select\<close> without a timeout returns only when a descriptor is ready, and then
  it returns some of the descriptors it was given, each once.
\<close>

definition select_ok :: "'kv world \<Rightarrow> bool" where
  "select_ok w =
     (\<forall>n S. finite S \<longrightarrow> S \<noteq> {} \<longrightarrow>
        ready w n S \<noteq> [] \<and> distinct (ready w n S) \<and> set (ready w n S) \<subseteq> S)"

text \<open>The generator states a caller can see: after any number of calls of \<open>next\<close>.\<close>

inductive reaches :: "'kv world \<Rightarrow> 'kv generator \<Rightarrow> 'kv generator \<Rightarrow> bool" for w g0 where
  reaches_start: "reaches w g0 g0"
| reaches_next: "reaches w g0 g \<Longrightarrow> readtb_next w g = Some (r, g') \<Longrightarrow> reaches w g0 g'"

text \<open>The same world, with another exit code for the dump process of one path.\<close>

definition with_exit_code :: "'kv world \<Rightarrow> string \<Rightarrow> int \<Rightarrow> 'kv world" where
  "with_exit_code w cur_path rc =
     w\<lparr>hadoop := (hadoop w)(dumptb_cmd w cur_path :=
                    (hadoop w (dumptb_cmd w cur_path))\<lparr>rcode := rc\<rparr>)\<rparr>"

subsection \<open>A small cluster\<close>

text \<open>
  A directory \<^verbatim>\<open>/d\<close> with a marker file and a data file, and nothing else.  A
  record is one byte.  The loader has exited when it is polled after the first record;
  \<^verbatim>\<open>select\<close> reports every descriptor ready, in increasing order.
\<close>

definition demo_ls_d :: string where
  "demo_ls_d =
     ''Found 2 items'' @ [CHR 0x0A] @
     ''-rw-r--r--   1 u g          1 2010-01-01 00:00 /d/_SUCCESS'' @ [CHR 0x0A] @
     ''-rw-r--r--   1 u g          2 2010-01-01 00:00 /d/part-0'' @ [CHR 0x0A]"

definition demo_hadoop :: "string \<Rightarrow> proc_result" where
  "demo_hadoop c =
     (if c = ''hadoop fs -ls /d''
      then \<lparr>rcode = 0, out_bytes = demo_ls_d, err_bytes = []\<rparr>
      else if c = ''hadoop jar hs.jar dumptb /d/part-0''
      then \<lparr>rcode = 0, out_bytes = ''ab'', err_bytes = []\<rparr>
      else if c = ''hadoop jar hs.jar dumptb /d/_SUCCESS''
      then \<lparr>rcode = 0, out_bytes = ''c'', err_bytes = []\<rparr>
      else \<lparr>rcode = 1, out_bytes = [], err_bytes = ''No such file''\<rparr>)"

definition demo :: "string world" where
  "demo = \<lparr>hadoop = demo_hadoop,
           tb_decode = map (\<lambda>c. [c]),
           hstreaming = ''hs.jar'',
           ready = (\<lambda>n S. sorted_list_of_set S),
           exited = (\<lambda>c i. 1 \<le> i)\<rparr>"

text \<open>The same cluster with a loader that stays alive while it is fed.\<close>

definition demo_alive :: "string world" where
  "demo_alive = demo\<lparr>exited := (\<lambda>c i. False)\<rparr>"

subsection \<open>Invariants of the variables of readtb\<close>

text \<open>The records a descriptor has still to give; none once it is retired.\<close>

definition unread :: "'kv rstate \<Rightarrow> nat \<Rightarrow> 'kv list" where
  "unread s fd = (case tb_fps s fd of None \<Rightarrow> [] | Some rs \<Rightarrow> rs)"

fun waits :: "'kv revent list \<Rightarrow> nat" where
  "waits [] = 0"
| "waits (Waited fd rc # tr) = Suc (waits tr)"
| "waits (e # tr) = waits tr"

text \<open>The steps done: records handed over and processes retired.\<close>

definition progress :: "'kv rstate \<Rightarrow> nat" where
  "progress s = length (tagged (trace s)) + waits (trace s)"

text \<open>At no point of the trace were more than \<open>N\<close> processes active.\<close>

definition peak :: "nat \<Rightarrow> 'kv revent list \<Rightarrow> bool" where
  "peak N tr = (\<forall>k\<le>length tr. active_count (take k tr) \<le> int N)"

text \<open>The set and the two dictionaries have the same keys, all handed out by the counter.\<close>

definition wfs :: "'kv rstate \<Rightarrow> bool" where
  "wfs s \<longleftrightarrow>
     finite (read_fds s) \<and> dom (procs s) = read_fds s \<and> dom (tb_fps s) = read_fds s
     \<and> (\<forall>fd\<in>read_fds s. fd < next_fd s)"

text \<open>
  The descriptors in the set are the active processes; there are at most \<open>k\<close> of them,
  and exactly \<open>k\<close> as long as the path generator has not been dropped.
\<close>

definition cap :: "nat \<Rightarrow> nat \<Rightarrow> 'kv rstate \<Rightarrow> bool" where
  "cap N k s \<longleftrightarrow>
     int (card (read_fds s)) = active_count (trace s) \<and> peak N (trace s)
     \<and> card (read_fds s) \<le> k \<and> (path_gen s \<noteq> None \<longrightarrow> card (read_fds s) = k)"

text \<open>
  Descriptors are handed out in order from 0; for every process spawned, the records
  already handed over followed by the records not read yet are the records it dumps.
\<close>

definition acct :: "'kv world \<Rightarrow> 'kv rstate \<Rightarrow> bool" where
  "acct w s \<longleftrightarrow>
     map fst (spawns (trace s)) = [0..<next_fd s]
     \<and> (\<forall>x\<in>set (tagged (trace s)). fst x < next_fd s)
     \<and> (\<forall>x\<in>set (spawns (trace s)).
          yields_of (fst x) (trace s) @ unread s (fst x) = dumped w (snd x))"

text \<open>The processes spawned and the backlog together are the enumerated paths, in order.\<close>

definition conserved ::
  "'kv world \<Rightarrow> bool \<Rightarrow> string list \<Rightarrow> error option \<Rightarrow> 'kv rstate \<Rightarrow> bool" where
  "conserved w ignore_logs files E s \<longleftrightarrow>
     map snd (spawns (trace s)) @ map (dumptb_cmd w) (queue w ignore_logs s)
       = map (dumptb_cmd w) files
     \<and> queue_error w ignore_logs s = E"

definition sound ::
  "'kv world \<Rightarrow> bool \<Rightarrow> nat \<Rightarrow> string list \<Rightarrow> error option \<Rightarrow> nat \<Rightarrow> 'kv rstate \<Rightarrow> bool" where
  "sound w ignore_logs N files E k s \<longleftrightarrow>
     wfs s \<and> cap N k s \<and> acct w s \<and> conserved w ignore_logs files E s"

subsection \<open>Invariants of the generator object\<close>

definition capacity :: "'kv generator \<Rightarrow> nat" where
  "capacity g = nat (arg_num_procs g)"

definition all_files :: "'kv world \<Rightarrow> 'kv generator \<Rightarrow> string list" where
  "all_files w g = enumerated w (arg_ignore_logs g) (roots_of (arg_paths g))"

definition all_error :: "'kv world \<Rightarrow> 'kv generator \<Rightarrow> error option" where
  "all_error w g = enumeration_error w (arg_ignore_logs g) (roots_of (arg_paths g))"

text \<open>The invariants at capacity \<open>k\<close>, for the arguments the generator was made with.\<close>

definition sound_at :: "'kv world \<Rightarrow> 'kv generator \<Rightarrow> nat \<Rightarrow> 'kv rstate \<Rightarrow> bool" where
  "sound_at w g k s =
     sound w (arg_ignore_logs g) (capacity g) (all_files w g) (all_error w g) k s"

definition gen_ok :: "'kv world \<Rightarrow> 'kv generator \<Rightarrow> bool" where
  "gen_ok w g =
     (case pc g of
        Unstarted \<Rightarrow> vars g = no_vars
      | Suspended rest \<Rightarrow> sound_at w g (capacity g) (vars g)
      | Finished \<Rightarrow> \<exists>k\<le>capacity g. sound_at w g k (vars g))"

text \<open>A generator that has more to do, suspended with descriptors that are still open.\<close>

definition gen_live :: "'kv world \<Rightarrow> 'kv generator \<Rightarrow> bool" where
  "gen_live w g =
     (case pc g of
        Unstarted \<Rightarrow> vars g = no_vars
      | Suspended rest \<Rightarrow> sound_at w g (capacity g) (vars g)
                          \<and> set rest \<subseteq> read_fds (vars g) \<and> distinct rest
      | Finished \<Rightarrow> False)"

definition same_args :: "'kv generator \<Rightarrow> 'kv generator \<Rightarrow> bool" where
  "same_args g g' \<longleftrightarrow>
     arg_paths g' = arg_paths g \<and> arg_ignore_logs g' = arg_ignore_logs g
     \<and> arg_num_procs g' = arg_num_procs g"

text \<open>
  How a run can end: the records received are the records yielded; without an error all
  processes are retired; an error is the error of the enumeration, raised when the
  backlog is empty.
\<close>

definition ended ::
  "'kv world \<Rightarrow> 'kv generator \<Rightarrow> error option \<Rightarrow> 'kv generator \<Rightarrow> bool" where
  "ended w g e g' \<longleftrightarrow>
     same_args g g' \<and> pc g' = Finished
     \<and> (\<exists>k\<le>capacity g. sound_at w g k (vars g'))
     \<and> (e = None \<longrightarrow> read_fds (vars g') = {} \<and> sound_at w g (capacity g) (vars g'))
     \<and> (e \<noteq> None \<longrightarrow> e = all_error w g \<and> queue w (arg_ignore_logs g) (vars g') = [])"

text \<open>What a caller of a whole run can see, with the processes that were spawned.\<close>

definition summary ::
  "('kv list \<times> error option \<times> 'kv generator) option
     \<Rightarrow> ('kv list \<times> error option \<times> (nat \<times> string) list) option" where
  "summary r = map_option (\<lambda>(out, e, g). (out, e, spawns (trace (vars g)))) r"

text \<open>The records received and the way the run ended, and nothing else.\<close>

definition visible ::
  "('kv list \<times> error option \<times> 'kv generator) option \<Rightarrow> ('kv list \<times> error option) option" where
  "visible r = map_option (\<lambda>(out, e, g). (out, e)) r"

subsection \<open>Runs that differ in exit codes only\<close>

text \<open>An event without the exit code it may carry.\<close>

fun anon :: "'kv revent \<Rightarrow> 'kv revent" where
  "anon (Waited fd rc) = Waited fd 0"
| "anon e = e"

text \<open>Two states with the same variables and the same events up to exit codes.\<close>

definition alike :: "'kv rstate \<Rightarrow> 'kv rstate \<Rightarrow> bool" where
  "alike s s' \<longleftrightarrow>
     read_fds s' = read_fds s \<and> procs s' = procs s \<and> tb_fps s' = tb_fps s
     \<and> path_gen s' = path_gen s \<and> next_fd s' = next_fd s \<and> rounds s' = rounds s
     \<and> map anon (trace s') = map anon (trace s)"

definition galike :: "'kv generator \<Rightarrow> 'kv generator \<Rightarrow> bool" where
  "galike g g' \<longleftrightarrow> same_args g g' \<and> pc g' = pc g \<and> alike (vars g) (vars g')"

text \<open>
  Two worlds where every command writes the same bytes and every listing gives the
  same result; the exit codes of other commands may differ.
\<close>

definition agree :: "'kv world \<Rightarrow> 'kv world \<Rightarrow> bool" where
  "agree w w' \<longleftrightarrow>
     tb_decode w' = tb_decode w \<and> hstreaming w' = hstreaming w \<and> ready w' = ready w
     \<and> (\<forall>c. out_bytes (hadoop w' c) = out_bytes (hadoop w c))
     \<and> (\<forall>r. ls w' r = ls w r)"

text \<open>
  A caller that calls \<open>next\<close> on the generator \<open>n\<close> times: what the calls give, in
  order; \<open>None\<close> if one of them does not return.
\<close>

fun outcomes :: "'kv world \<Rightarrow> 'kv generator \<Rightarrow> nat \<Rightarrow> 'kv outcome list option" where
  "outcomes w g 0 = Some []"
| "outcomes w g (Suc n) =
     (case readtb_next w g of
        None \<Rightarrow> None
      | Some (r, g') \<Rightarrow> map_option ((#) r) (outcomes w g' n))"

text \<open>How a whole run ends, as the last call of \<open>next\<close> gives it.\<close>

definition last_outcome :: "error option \<Rightarrow> 'kv outcome" where
  "last_outcome e = (case e of None \<Rightarrow> StopIteration | Some x \<Rightarrow> Raised x)"

text \<open>
  The small cluster with two more directories: \<^verbatim>\<open>/t\<close>, whose listing names a
  subdirectory with a slash at its end and a data file, and \<^verbatim>\<open>/empty\<close>, whose
  listing is empty.
\<close>

definition demo_ls_t :: string where
  "demo_ls_t =
     ''Found 2 items'' @ [CHR 0x0A] @
     ''drwxr-xr-x   - u g          0 2010-01-01 00:00 /t/sub/'' @ [CHR 0x0A] @
     ''-rw-r--r--   1 u g          2 2010-01-01 00:00 /t/part-0'' @ [CHR 0x0A]"

definition demo_more :: "string world" where
  "demo_more =
     demo\<lparr>hadoop := (\<lambda>c.
       if c = ''hadoop fs -ls /t''
       then \<lparr>rcode = 0, out_bytes = demo_ls_t, err_bytes = []\<rparr>
       else if c = ''hadoop fs -ls /empty''
       then \<lparr>rcode = 0, out_bytes = [], err_bytes = []\<rparr>
       else demo_hadoop c)\<rparr>"

section \<open>Properties\<close>

subsection \<open>The checked command\<close>

text \<open>
  C7.  For every command, \<^verbatim>\<open>_checked_hadoop_fs_command\<close> raises if and only if the
  exit code of the command is not zero; the error then carries the command text and the
  captured stderr; on exit code zero it returns the exit code with the captured stdout
  and stderr.
\<close>

theorem checked_command_raises_iff_nonzero:
  "((\<exists>e. checked_hadoop_fs_command w cmd = Inl e) \<longleftrightarrow> rcode (hadoop w cmd) \<noteq> 0)
   \<and> (rcode (hadoop w cmd) \<noteq> 0 \<longrightarrow>
        checked_hadoop_fs_command w cmd
          = Inl (IOError (''Ran['' @ cmd @ '']: '' @ err_bytes (hadoop w cmd))))
   \<and> (rcode (hadoop w cmd) = 0 \<longrightarrow>
        checked_hadoop_fs_command w cmd
          = Inr (0, out_bytes (hadoop w cmd), err_bytes (hadoop w cmd)))"
  by (simp add: checked_hadoop_fs_command_def Let_def)

theorem checked_command_witness:
  "checked_hadoop_fs_command demo ''hadoop fs -ls /e''
     = Inl (IOError ''Ran[hadoop fs -ls /e]: No such file'')
   \<and> checked_hadoop_fs_command demo ''hadoop fs -ls /d'' = Inr (0, demo_ls_d, [])"
  using checked_command_raises_iff_nonzero [of demo "''hadoop fs -ls /e''"]
        checked_command_raises_iff_nonzero [of demo "''hadoop fs -ls /d''"]
  by (simp add: demo_def demo_hadoop_def)

subsection \<open>writetb\<close>

lemma write_loop_quit:
  "i < length kvs \<Longrightarrow> \<forall>j<i. \<not> exited w cmd (k + j) \<Longrightarrow> exited w cmd (k + i) \<Longrightarrow>
   write_loop w cmd k kvs tr =
     (Some (child_quit w cmd),
      tr @ concat (map (\<lambda>kv. [WPoll None, WWrite kv]) (take i kvs))
         @ [WPoll (Some (rcode (hadoop w cmd))), WCommunicate])"
proof (induction kvs arbitrary: i k tr)
  case Nil
  then show ?case by simp
next
  case (Cons kv kvs)
  show ?case
  proof (cases i)
    case 0
    with Cons.prems show ?thesis by (simp add: poll_def)
  next
    case (Suc i')
    from Cons.prems Suc have alive: "\<not> exited w cmd k"
      by (metis add.right_neutral zero_less_Suc)
    from Cons.prems Suc have a: "i' < length kvs" by simp
    have b: "\<forall>j<i'. \<not> exited w cmd (Suc k + j)"
    proof (intro allI impI)
      fix j assume "j < i'"
      then have "Suc j < i" using Suc by simp
      with Cons.prems have "\<not> exited w cmd (k + Suc j)" by blast
      then show "\<not> exited w cmd (Suc k + j)" by simp
    qed
    from Cons.prems Suc have c: "exited w cmd (Suc k + i')" by simp
    from Cons.IH [OF a b c] alive Suc show ?thesis by (simp add: poll_def)
  qed
qed

lemma write_loop_alive:
  "\<forall>j<length kvs. \<not> exited w cmd (k + j) \<Longrightarrow>
   write_loop w cmd k kvs tr =
     (None, tr @ concat (map (\<lambda>kv. [WPoll None, WWrite kv]) kvs))"
proof (induction kvs arbitrary: k tr)
  case Nil
  then show ?case by simp
next
  case (Cons kv kvs)
  from Cons.prems have alive: "\<not> exited w cmd k"
    by (metis add.right_neutral length_greater_0_conv list.discI)
  have b: "\<forall>j<length kvs. \<not> exited w cmd (Suc k + j)"
  proof (intro allI impI)
    fix j assume "j < length kvs"
    then have "Suc j < length (kv # kvs)" by simp
    with Cons.prems have "\<not> exited w cmd (k + Suc j)" by blast
    then show "\<not> exited w cmd (Suc k + j)" by simp
  qed
  from Cons.IH [OF b] alive show ?case by (simp add: poll_def)
qed

text \<open>
  While the loader stays alive, every record is polled for and written, the pipe is
  flushed and closed and the exit of the loader is awaited; the call then returns
  normally, whatever the exit code.
\<close>

lemma writetb_alive:
  "\<forall>j<length kvs. \<not> exited w (loadtb_cmd w path) j \<Longrightarrow>
   writetb w path kvs =
     (None,
      WSpawn (loadtb_cmd w path) # concat (map (\<lambda>kv. [WPoll None, WWrite kv]) kvs)
        @ [WFlush, WClose, WWait (rcode (hadoop w (loadtb_cmd w path)))])"
  using write_loop_alive [of kvs w "loadtb_cmd w path" 0 "[WSpawn (loadtb_cmd w path)]"]
  by (simp add: writetb_def Let_def)

text \<open>
  C4, at a loader that stays alive and exits with code 1 after the pipe is closed:
  \<^verbatim>\<open>writetb\<close> flushes, closes and waits, and then returns normally.
\<close>

theorem writetb_ignores_exit_code:
  "writetb demo_alive ''/out'' [''a'', ''b'']
     = (None,
        [WSpawn ''hadoop jar hs.jar loadtb /out'',
         WPoll None, WWrite ''a'', WPoll None, WWrite ''b'',
         WFlush, WClose, WWait 1])"
  by (simp add: writetb_def loadtb_cmd_def poll_def demo_alive_def demo_def demo_hadoop_def)

text \<open>
  C5.  The loader is polled before each record is written.  If the poll before the
  record of index \<open>i\<close> is the first to find that the loader has exited, \<^verbatim>\<open>writetb\<close>
  raises at once the error that carries the captured stdout and stderr of the loader;
  the records before \<open>i\<close> have been written and no other.
\<close>

theorem writetb_fails_when_loader_exited:
  assumes "i < length kvs"
      and "\<forall>j<i. \<not> exited w (loadtb_cmd w path) j"
      and "exited w (loadtb_cmd w path) i"
  shows "writetb w path kvs =
     (Some (IOError (''Child process quit while we were sending it data. STDOUT[''
                     @ out_bytes (hadoop w (loadtb_cmd w path)) @ ''] STDERR[''
                     @ err_bytes (hadoop w (loadtb_cmd w path)) @ '']'')),
      WSpawn (loadtb_cmd w path)
        # concat (map (\<lambda>kv. [WPoll None, WWrite kv]) (take i kvs))
        @ [WPoll (Some (rcode (hadoop w (loadtb_cmd w path)))), WCommunicate, WClose])"
  using write_loop_quit [of i kvs w "loadtb_cmd w path" 0 "[WSpawn (loadtb_cmd w path)]"] assms
  by (simp add: writetb_def Let_def child_quit_def)

theorem writetb_fails_witness:
  "writetb demo ''/out'' [''a'', ''b'', ''c'']
     = (Some (IOError
          ''Child process quit while we were sending it data. STDOUT[] STDERR[No such file]''),
        [WSpawn ''hadoop jar hs.jar loadtb /out'', WPoll None, WWrite ''a'',
         WPoll (Some 1), WCommunicate, WClose])"
proof -
  have a: "(1::nat) < length [''a'', ''b'', ''c'']" by simp
  have b: "\<forall>j<1. \<not> exited demo (loadtb_cmd demo ''/out'') j" by (simp add: demo_def)
  have c: "exited demo (loadtb_cmd demo ''/out'') 1" by (simp add: demo_def)
  from writetb_fails_when_loader_exited [OF a b c] show ?thesis
    by (simp add: loadtb_cmd_def demo_def demo_hadoop_def)
qed

subsection \<open>Traces\<close>

lemma tagged_append [simp]: "tagged (a @ b) = tagged a @ tagged b"
  by (induction a rule: tagged.induct) simp_all

lemma spawns_append [simp]: "spawns (a @ b) = spawns a @ spawns b"
  by (induction a rule: spawns.induct) simp_all

lemma waits_append [simp]: "waits (a @ b) = waits a + waits b"
  by (induction a rule: waits.induct) simp_all

lemma active_count_append [simp]: "active_count (a @ b) = active_count a + active_count b"
  by (induction a rule: active_count.induct) simp_all

lemma tagged_Listed [simp]: "tagged (map Listed l) = []"
  by (induction l) simp_all

lemma spawns_Listed [simp]: "spawns (map Listed l) = []"
  by (induction l) simp_all

lemma waits_Listed [simp]: "waits (map Listed l) = 0"
  by (induction l) simp_all

lemma active_count_Listed [simp]: "active_count (map Listed l) = 0"
  by (induction l) simp_all

lemma yields_append [simp]: "yields (a @ b) = yields a @ yields b"
  by (simp add: yields_def)

lemma yields_of_append [simp]: "yields_of fd (a @ b) = yields_of fd a @ yields_of fd b"
  by (simp add: yields_of_def)

lemma yields_of_fresh: "\<forall>x\<in>set (tagged tr). fst x \<noteq> fd \<Longrightarrow> yields_of fd tr = []"
  by (simp add: yields_of_def filter_empty_conv)

lemma peak_Nil [simp]: "peak N []"
  by (simp add: peak_def)

lemma peak_snoc: "peak N (tr @ [e]) \<longleftrightarrow> peak N tr \<and> active_count (tr @ [e]) \<le> int N"
proof
  assume P: "peak N (tr @ [e])"
  have "peak N tr"
    unfolding peak_def
  proof (intro allI impI)
    fix k assume k: "k \<le> length tr"
    then have "k \<le> length (tr @ [e])" by simp
    with P have "active_count (take k (tr @ [e])) \<le> int N"
      unfolding peak_def by blast
    with k show "active_count (take k tr) \<le> int N" by simp
  qed
  moreover from P have "active_count (take (length (tr @ [e])) (tr @ [e])) \<le> int N"
    unfolding peak_def by blast
  ultimately show "peak N tr \<and> active_count (tr @ [e]) \<le> int N" by simp
next
  assume A: "peak N tr \<and> active_count (tr @ [e]) \<le> int N"
  show "peak N (tr @ [e])"
    unfolding peak_def
  proof (intro allI impI)
    fix k assume k: "k \<le> length (tr @ [e])"
    show "active_count (take k (tr @ [e])) \<le> int N"
    proof (cases "k \<le> length tr")
      case True
      with A show ?thesis by (simp add: peak_def)
    next
      case False
      with k have "k = Suc (length tr)" by simp
      with A show ?thesis by simp
    qed
  qed
qed

lemma peak_Listed: "peak N (tr @ map Listed l) \<longleftrightarrow> peak N tr"
proof (induction l rule: rev_induct)
  case Nil
  then show ?case by simp
next
  case (snoc x xs)
  have "peak N (tr @ map Listed (xs @ [x])) \<longleftrightarrow> peak N ((tr @ map Listed xs) @ [Listed x])"
    by simp
  also have "\<dots> \<longleftrightarrow> peak N (tr @ map Listed xs)
                    \<and> active_count ((tr @ map Listed xs) @ [Listed x]) \<le> int N"
    by (rule peak_snoc)
  also have "\<dots> \<longleftrightarrow> peak N tr \<and> active_count tr \<le> int N"
    using snoc.IH by simp
  also have "\<dots> \<longleftrightarrow> peak N tr"
  proof -
    have "peak N tr \<Longrightarrow> active_count (take (length tr) tr) \<le> int N"
      unfolding peak_def by blast
    then show ?thesis by auto
  qed
  finally show ?case .
qed

lemma peak_last: "peak N tr \<Longrightarrow> active_count tr \<le> int N"
proof -
  assume "peak N tr"
  then have "active_count (take (length tr) tr) \<le> int N"
    unfolding peak_def by blast
  then show ?thesis by simp
qed

subsection \<open>The path generator\<close>

lemma path_gen_next_shape:
  "path_gen_next w ig (cur, roots) s = (r, s') \<Longrightarrow>
   \<exists>lsd. (case cur @ enumerated w ig roots of
            p # ps \<Rightarrow> (\<exists>cur' roots'. r = GYield (cur', roots')
                          \<and> cur' @ enumerated w ig roots' = ps
                          \<and> enumeration_error w ig roots' = enumeration_error w ig roots)
                      \<and> s' = open_tb w p (s\<lparr>trace := trace s @ map Listed lsd\<rparr>)
          | [] \<Rightarrow> r = (case enumeration_error w ig roots of None \<Rightarrow> GStop | Some e \<Rightarrow> GRaise e)
                  \<and> s' = s\<lparr>trace := trace s @ map Listed lsd\<rparr>)"
proof (induction roots arbitrary: cur s)
  case Nil
  then show ?case
    by (cases cur) (auto intro: exI [of _ "[]"])
next
  case (Cons root roots)
  show ?case
  proof (cases cur)
    case (Cons p ps)
    with Cons.prems show ?thesis by (auto intro: exI [of _ "[]"])
  next
    case Nil
    show ?thesis
    proof (cases "root_paths w ig root")
      case (Inl e)
      with Nil Cons.prems show ?thesis
        by (auto simp: root_paths_def Let_def split: sum.splits if_splits
                 intro!: exI [of _ "[root]"])
    next
      case (Inr kept)
      define s1 where "s1 = s\<lparr>trace := trace s @ [Listed root]\<rparr>"
      from Inr Nil Cons.prems
      have step: "path_gen_next w ig (kept, roots) s1 = (r, s')"
        by (auto simp: s1_def root_paths_def Let_def split: sum.splits if_splits)
      from Cons.IH [OF step] obtain lsd where
        L: "(case kept @ enumerated w ig roots of
            p # ps \<Rightarrow> (\<exists>cur' roots'. r = GYield (cur', roots')
                          \<and> cur' @ enumerated w ig roots' = ps
                          \<and> enumeration_error w ig roots' = enumeration_error w ig roots)
                      \<and> s' = open_tb w p (s1\<lparr>trace := trace s1 @ map Listed lsd\<rparr>)
          | [] \<Rightarrow> r = (case enumeration_error w ig roots of None \<Rightarrow> GStop | Some e \<Rightarrow> GRaise e)
                  \<and> s' = s1\<lparr>trace := trace s1 @ map Listed lsd\<rparr>)"
        by blast
      show ?thesis
        apply (rule exI [of _ "root # lsd"])
        using L Nil Inr by (auto simp: s1_def split: list.splits)
    qed
  qed
qed

text \<open>With a backlog, \<open>advance\<close> spawns the process of its first path and nothing else.\<close>

lemma advance_backlog:
  assumes "queue w ig s = p # ps"
  shows "\<exists>lsd s'. advance w ig s = (None, s')
           \<and> queue w ig s' = ps \<and> queue_error w ig s' = queue_error w ig s
           \<and> path_gen s' \<noteq> None
           \<and> read_fds s' = insert (next_fd s) (read_fds s)
           \<and> procs s' = (procs s)(next_fd s \<mapsto> dumptb_cmd w p)
           \<and> tb_fps s' = (tb_fps s)(next_fd s \<mapsto> file_records w p)
           \<and> next_fd s' = Suc (next_fd s) \<and> rounds s' = rounds s
           \<and> trace s' = trace s @ map Listed lsd @ [Spawned (next_fd s) (dumptb_cmd w p)]"
proof -
  from assms obtain cur roots where pg: "path_gen s = Some (cur, roots)"
    and q: "cur @ enumerated w ig roots = p # ps"
    by (auto simp: queue_def split: option.splits)
  obtain r s1 where n: "path_gen_next w ig (cur, roots) s = (r, s1)"
    by (cases "path_gen_next w ig (cur, roots) s") blast
  from path_gen_next_shape [OF n] q obtain lsd cur' roots' where
    r: "r = GYield (cur', roots')" and q': "cur' @ enumerated w ig roots' = ps"
    and e': "enumeration_error w ig roots' = enumeration_error w ig roots"
    and s1: "s1 = open_tb w p (s\<lparr>trace := trace s @ map Listed lsd\<rparr>)"
    by auto
  have "advance w ig s = (None, s1\<lparr>path_gen := Some (cur', roots')\<rparr>)"
    using pg n r by (simp add: advance_def)
  then show ?thesis
    using q' e' s1 pg
    by (intro exI [of _ lsd] exI [of _ "s1\<lparr>path_gen := Some (cur', roots')\<rparr>"])
       (simp add: queue_def queue_error_def open_tb_def Let_def file_records_def)
qed

text \<open>
  Without a backlog, \<open>advance\<close> spawns nothing: it raises the error of the enumeration
  if there is one, and drops the path generator otherwise.
\<close>

lemma advance_empty:
  assumes "queue w ig s = []"
  shows "\<exists>lsd s'. advance w ig s = (queue_error w ig s, s')
           \<and> queue w ig s' = []
           \<and> (queue_error w ig s = None \<longrightarrow> path_gen s' = None)
           \<and> (queue_error w ig s \<noteq> None \<longrightarrow> path_gen s' = path_gen s)
           \<and> queue_error w ig s' = queue_error w ig s
           \<and> read_fds s' = read_fds s \<and> procs s' = procs s \<and> tb_fps s' = tb_fps s
           \<and> next_fd s' = next_fd s \<and> rounds s' = rounds s
           \<and> trace s' = trace s @ map Listed lsd"
proof (cases "path_gen s")
  case None
  then show ?thesis
    by (intro exI [of _ "[]"] exI [of _ s]) (simp add: advance_def queue_def queue_error_def)
next
  case (Some pg)
  obtain cur roots where pg: "pg = (cur, roots)" by (cases pg)
  from assms Some pg have q: "cur @ enumerated w ig roots = []"
    by (simp add: queue_def)
  obtain r s1 where n: "path_gen_next w ig (cur, roots) s = (r, s1)"
    by (cases "path_gen_next w ig (cur, roots) s") blast
  from path_gen_next_shape [OF n] q obtain lsd where
    r: "r = (case enumeration_error w ig roots of None \<Rightarrow> GStop | Some e \<Rightarrow> GRaise e)"
    and s1: "s1 = s\<lparr>trace := trace s @ map Listed lsd\<rparr>"
    by auto
  show ?thesis
  proof (cases "enumeration_error w ig roots")
    case None
    with r have "advance w ig s = (None, s1\<lparr>path_gen := None\<rparr>)"
      using Some pg n by (simp add: advance_def)
    with None s1 Some pg show ?thesis
      by (intro exI [of _ lsd] exI [of _ "s1\<lparr>path_gen := None\<rparr>"])
         (simp add: queue_def queue_error_def)
  next
    case (Some e)
    with r have "advance w ig s = (Some e, s1)"
      using \<open>path_gen s = Some pg\<close> pg n by (simp add: advance_def)
    with Some s1 \<open>path_gen s = Some pg\<close> pg q show ?thesis
      by (intro exI [of _ lsd] exI [of _ s1]) (simp add: queue_def queue_error_def)
  qed
qed

subsection \<open>The invariants are kept by every step\<close>

lemma sound_rounds [simp]:
  "sound w ig N files E k (s\<lparr>rounds := n\<rparr>) = sound w ig N files E k s"
  by (simp add: sound_def wfs_def cap_def acct_def conserved_def queue_def queue_error_def
                unread_def)

lemma progress_rounds [simp]: "progress (s\<lparr>rounds := n\<rparr>) = progress s"
  by (simp add: progress_def)

lemma wfs_fresh: "wfs s \<Longrightarrow> next_fd s \<notin> read_fds s"
  by (auto simp: wfs_def)

lemma sound_spawn:
  assumes S: "sound w ig N files E k s" and k: "k < N"
      and q: "queue w ig s = p # ps"
      and q': "queue w ig s' = ps" and e': "queue_error w ig s' = queue_error w ig s"
      and rf: "read_fds s' = insert (next_fd s) (read_fds s)"
      and pr: "procs s' = (procs s)(next_fd s \<mapsto> dumptb_cmd w p)"
      and tb: "tb_fps s' = (tb_fps s)(next_fd s \<mapsto> file_records w p)"
      and nf: "next_fd s' = Suc (next_fd s)"
      and tr: "trace s' = trace s @ map Listed lsd @ [Spawned (next_fd s) (dumptb_cmd w p)]"
  shows "sound w ig N files E (Suc k) s'"
proof -
  from S have W: "wfs s" and C: "cap N k s" and A: "acct w s"
    and V: "conserved w ig files E s"
    by (simp_all add: sound_def)
  from W have fresh: "next_fd s \<notin> read_fds s" by (rule wfs_fresh)
  from q have pg: "path_gen s \<noteq> None" by (auto simp: queue_def split: option.splits)
  with C have card: "card (read_fds s) = k" by (simp add: cap_def)
  have W': "wfs s'"
    using W rf pr tb nf by (auto simp: wfs_def)
  have card': "card (read_fds s') = Suc k"
    using W fresh card rf by (simp add: wfs_def)
  have act: "active_count (trace s') = int (Suc k)"
    using C card tr by (simp add: cap_def)
  have "peak N (trace s')"
  proof -
    have "peak N ((trace s @ map Listed lsd) @ [Spawned (next_fd s) (dumptb_cmd w p)])"
      unfolding peak_snoc using C k card by (simp add: cap_def peak_Listed)
    with tr show ?thesis by simp
  qed
  with card' act have C': "cap N (Suc k) s'" by (simp add: cap_def)
  have A': "acct w s'"
    unfolding acct_def
  proof (intro conjI ballI)
    show "map fst (spawns (trace s')) = [0..<next_fd s']"
      using A tr nf by (simp add: acct_def)
    fix x assume "x \<in> set (tagged (trace s'))"
    with A tr nf show "fst x < next_fd s'" by (auto simp: acct_def)
  next
    fix x assume x: "x \<in> set (spawns (trace s'))"
    have none: "yields_of (next_fd s) (trace s) = []"
      using A by (intro yields_of_fresh) (auto simp: acct_def)
    show "yields_of (fst x) (trace s') @ unread s' (fst x) = dumped w (snd x)"
    proof (cases "x \<in> set (spawns (trace s))")
      case True
      then have "fst x \<in> set (map fst (spawns (trace s)))" by simp
      with A have "fst x < next_fd s" by (simp add: acct_def)
      then have "unread s' (fst x) = unread s (fst x)"
        using tb by (simp add: unread_def)
      with True A tr show ?thesis by (simp add: acct_def yields_of_def)
    next
      case False
      with x tr have "x = (next_fd s, dumptb_cmd w p)" by simp
      with none tr tb show ?thesis
        by (simp add: unread_def file_records_def yields_of_def)
    qed
  qed
  have V': "conserved w ig files E s'"
    using V q q' e' tr by (simp add: conserved_def)
  from W' C' A' V' show ?thesis by (simp add: sound_def)
qed

lemma sound_listed:
  assumes S: "sound w ig N files E k s"
      and q: "queue w ig s = []" and q': "queue w ig s' = []"
      and e': "queue_error w ig s' = queue_error w ig s"
      and pg: "path_gen s' = None \<or> path_gen s' = path_gen s"
      and rf: "read_fds s' = read_fds s" and pr: "procs s' = procs s"
      and tb: "tb_fps s' = tb_fps s" and nf: "next_fd s' = next_fd s"
      and tr: "trace s' = trace s @ map Listed lsd"
  shows "sound w ig N files E k s'"
proof -
  from S have W: "wfs s" and C: "cap N k s" and A: "acct w s"
    and V: "conserved w ig files E s"
    by (simp_all add: sound_def)
  have W': "wfs s'" using W rf pr tb nf by (simp add: wfs_def)
  have C': "cap N k s'" using C rf tr pg by (auto simp: cap_def peak_Listed)
  have A': "acct w s'" using A tr nf tb by (simp add: acct_def unread_def yields_of_def)
  have V': "conserved w ig files E s'" using V q q' e' tr by (simp add: conserved_def)
  from W' C' A' V' show ?thesis by (simp add: sound_def)
qed

lemma sound_mono:
  "sound w ig N files E k s \<Longrightarrow> path_gen s = None \<Longrightarrow> k \<le> k' \<Longrightarrow> sound w ig N files E k' s"
  by (simp add: sound_def cap_def)

text \<open>One call of \<open>advance\<close> while fewer than \<open>N\<close> processes are active.\<close>

lemma advance_sound:
  assumes S: "sound w ig N files E k s" and k: "k < N"
      and adv: "advance w ig s = (r, s')"
  shows "(r = None \<longrightarrow> sound w ig N files E (Suc k) s')
       \<and> (r \<noteq> None \<longrightarrow> r = E \<and> sound w ig N files E k s' \<and> queue w ig s' = [])
       \<and> tagged (trace s') = tagged (trace s) \<and> waits (trace s') = waits (trace s)
       \<and> read_fds s \<subseteq> read_fds s' \<and> rounds s' = rounds s"
proof (cases "queue w ig s")
  case (Cons p ps)
  from advance_backlog [OF Cons] adv obtain lsd where
    "r = None" "queue w ig s' = ps" "queue_error w ig s' = queue_error w ig s"
    "read_fds s' = insert (next_fd s) (read_fds s)"
    "procs s' = (procs s)(next_fd s \<mapsto> dumptb_cmd w p)"
    "tb_fps s' = (tb_fps s)(next_fd s \<mapsto> file_records w p)"
    "next_fd s' = Suc (next_fd s)" "rounds s' = rounds s"
    "trace s' = trace s @ map Listed lsd @ [Spawned (next_fd s) (dumptb_cmd w p)]"
    by auto
  with sound_spawn [OF S k Cons, of s' lsd] show ?thesis by auto
next
  case Nil
  from advance_empty [OF Nil] adv obtain lsd where
    f: "r = queue_error w ig s" "queue w ig s' = []"
    "queue_error w ig s = None \<longrightarrow> path_gen s' = None"
    "queue_error w ig s' = queue_error w ig s"
    "read_fds s' = read_fds s" "procs s' = procs s" "tb_fps s' = tb_fps s"
    "next_fd s' = next_fd s" "rounds s' = rounds s"
    "trace s' = trace s @ map Listed lsd"
    and g: "queue_error w ig s \<noteq> None \<longrightarrow> path_gen s' = path_gen s"
    by auto
  from S have E: "queue_error w ig s = E" by (simp add: sound_def conserved_def)
  from f(3) g have pgs: "path_gen s' = None \<or> path_gen s' = path_gen s"
    by (cases "queue_error w ig s") simp_all
  from sound_listed [OF S Nil f(2) f(4) pgs f(5) f(6) f(7) f(8) f(10)]
  have S': "sound w ig N files E k s'" .
  show ?thesis
  proof (cases r)
    case None
    with f have "path_gen s' = None" by simp
    with S' have "sound w ig N files E (Suc k) s'" by (rule sound_mono) simp
    with None f show ?thesis by simp
  next
    case (Some e)
    with f E S' show ?thesis by auto
  qed
qed

lemma sound_yield:
  assumes S: "sound w ig N files E k s"
      and tb: "tb_fps s fd = Some (kv # unr)"
      and rf: "read_fds s' = read_fds s" and pr: "procs s' = procs s"
      and tb': "tb_fps s' = (tb_fps s)(fd \<mapsto> unr)"
      and nf: "next_fd s' = next_fd s" and pg: "path_gen s' = path_gen s"
      and tr: "trace s' = trace s @ [Yielded fd kv]"
  shows "sound w ig N files E k s'"
proof -
  from S have W: "wfs s" and C: "cap N k s" and A: "acct w s"
    and V: "conserved w ig files E s"
    by (simp_all add: sound_def)
  from W tb have fd: "fd \<in> read_fds s" by (auto simp: wfs_def)
  with W have lt: "fd < next_fd s" by (simp add: wfs_def)
  have W': "wfs s'" using W fd rf pr tb' nf by (auto simp: wfs_def)
  have C': "cap N k s'"
    using C rf pg tr by (auto simp: cap_def peak_snoc dest: peak_last)
  have A': "acct w s'"
    unfolding acct_def
  proof (intro conjI ballI)
    show "map fst (spawns (trace s')) = [0..<next_fd s']"
      using A tr nf by (simp add: acct_def)
    fix x assume "x \<in> set (tagged (trace s'))"
    with A lt tr nf show "fst x < next_fd s'" by (auto simp: acct_def)
  next
    fix x assume x: "x \<in> set (spawns (trace s'))"
    then have "x \<in> set (spawns (trace s))" using tr by simp
    with A have old: "yields_of (fst x) (trace s) @ unread s (fst x) = dumped w (snd x)"
      by (simp add: acct_def)
    show "yields_of (fst x) (trace s') @ unread s' (fst x) = dumped w (snd x)"
    proof (cases "fst x = fd")
      case True
      with old tb tb' tr show ?thesis by (simp add: unread_def yields_of_def)
    next
      case False
      with old tb' tr show ?thesis by (simp add: unread_def yields_of_def)
    qed
  qed
  have V': "conserved w ig files E s'"
    using V pg tr by (simp add: conserved_def queue_def queue_error_def)
  from W' C' A' V' show ?thesis by (simp add: sound_def)
qed

lemma sound_retire:
  assumes S: "sound w ig N files E k s"
      and tb: "tb_fps s fd = Some []"
      and rf: "read_fds s' = read_fds s - {fd}" and pr: "procs s' = (procs s)(fd := None)"
      and tb': "tb_fps s' = (tb_fps s)(fd := None)"
      and nf: "next_fd s' = next_fd s" and pg: "path_gen s' = path_gen s"
      and tr: "trace s' = trace s @ [Waited fd rc]"
  shows "sound w ig N files E (k - 1) s' \<and> 0 < k"
proof -
  from S have W: "wfs s" and C: "cap N k s" and A: "acct w s"
    and V: "conserved w ig files E s"
    by (simp_all add: sound_def)
  from W tb have fd: "fd \<in> read_fds s" by (auto simp: wfs_def)
  from W have fin: "finite (read_fds s)" by (simp add: wfs_def)
  from fin fd have pos: "0 < card (read_fds s)" by (auto simp: card_gt_0_iff)
  with C have k: "0 < k" by (simp add: cap_def)
  have W': "wfs s'" using W rf pr tb' nf by (auto simp: wfs_def)
  have card': "card (read_fds s') = card (read_fds s) - 1"
    using fin fd rf by simp
  have C': "cap N (k - 1) s'"
    using C pos card' pg tr by (auto simp: cap_def peak_snoc dest: peak_last)
  have A': "acct w s'"
    unfolding acct_def
  proof (intro conjI ballI)
    show "map fst (spawns (trace s')) = [0..<next_fd s']"
      using A tr nf by (simp add: acct_def)
    fix x assume "x \<in> set (tagged (trace s'))"
    with A tr nf show "fst x < next_fd s'" by (auto simp: acct_def)
  next
    fix x assume x: "x \<in> set (spawns (trace s'))"
    then have "x \<in> set (spawns (trace s))" using tr by simp
    with A have old: "yields_of (fst x) (trace s) @ unread s (fst x) = dumped w (snd x)"
      by (simp add: acct_def)
    have "unread s' (fst x) = unread s (fst x)"
      using tb tb' by (simp add: unread_def)
    with old tr show "yields_of (fst x) (trace s') @ unread s' (fst x) = dumped w (snd x)"
      by (simp add: yields_of_def)
  qed
  have V': "conserved w ig files E s'"
    using V pg tr by (simp add: conserved_def queue_def queue_error_def)
  from W' C' A' V' k show ?thesis by (simp add: sound_def)
qed

text \<open>The first loop of \<^verbatim>\<open>readtb\<close>: \<open>n\<close> calls of \<open>advance\<close>.\<close>

lemma fill_sound:
  "sound w ig N files E k s \<Longrightarrow> k + n \<le> N \<Longrightarrow> fill w ig n s = (r, s') \<Longrightarrow>
   (r = None \<longrightarrow> sound w ig N files E (k + n) s')
   \<and> (r \<noteq> None \<longrightarrow> r = E \<and> queue w ig s' = [])
   \<and> (\<exists>k'\<le>N. sound w ig N files E k' s')
   \<and> tagged (trace s') = tagged (trace s) \<and> waits (trace s') = waits (trace s)"
proof (induction n arbitrary: k s)
  case 0
  then show ?case by auto
next
  case (Suc n)
  obtain r1 s1 where adv: "advance w ig s = (r1, s1)" by (cases "advance w ig s") blast
  from Suc.prems have k: "k < N" by simp
  note A = advance_sound [OF Suc.prems(1) k adv]
  show ?case
  proof (cases r1)
    case None
    with A have S1: "sound w ig N files E (Suc k) s1" by simp
    from Suc.prems have le: "Suc k + n \<le> N" by simp
    from Suc.prems adv None have f: "fill w ig n s1 = (r, s')" by simp
    from Suc.IH [OF S1 le f] A show ?thesis by simp
  next
    case (Some e)
    with Suc.prems adv have "r = r1" "s' = s1" by simp_all
    with A Some k show ?thesis by (auto intro: exI [of _ k])
  qed
qed

text \<open>
  The loop over the ready descriptors, from a state with \<open>N\<close> as capacity.  Each
  descriptor visited gives one record, and the loop is left, or is retired.
\<close>

lemma for_loop_sound:
  "sound w ig N files E N s \<Longrightarrow> for_loop w ig cur s = (r, s') \<Longrightarrow>
   (\<exists>k\<le>N. sound w ig N files E k s')
   \<and> (case r of
        FDone \<Rightarrow> sound w ig N files E N s' \<and> tagged (trace s') = tagged (trace s)
                  \<and> progress s' = progress s + length cur
      | FYield kv rest \<Rightarrow> sound w ig N files E N s'
                  \<and> (\<exists>fd. tagged (trace s') = tagged (trace s) @ [(fd, kv)])
                  \<and> progress s < progress s'
      | FRaise e \<Rightarrow> tagged (trace s') = tagged (trace s))
   \<and> (set cur \<subseteq> read_fds s \<and> distinct cur \<longrightarrow>
        (\<forall>e. r = FRaise e \<longrightarrow> Some e = E \<and> queue w ig s' = [])
        \<and> (\<forall>kv rest. r = FYield kv rest \<longrightarrow> set rest \<subseteq> read_fds s' \<and> distinct rest))"
proof (induction cur arbitrary: s)
  case Nil
  then show ?case by auto
next
  case (Cons fd cur)
  note S = Cons.prems(1)
  from S have W: "wfs s" by (simp add: sound_def)
  show ?case
  proof (cases "procs s fd")
    case None
    with W have "fd \<notin> read_fds s" by (auto simp: wfs_def)
    with None Cons.prems show ?thesis by auto
  next
    case (Some p)
    with W have fd: "fd \<in> read_fds s" by (auto simp: wfs_def)
    with W have "fd \<in> dom (tb_fps s)" by (simp add: wfs_def)
    then obtain tp where tp: "tb_fps s fd = Some tp" by blast
    show ?thesis
    proof (cases tp)
      case (Cons kv unr)
      define s1 where
        "s1 = s\<lparr>tb_fps := (tb_fps s)(fd \<mapsto> unr), trace := trace s @ [Yielded fd kv]\<rparr>"
      from Cons.prems(2) Some tp Cons have r: "r = FYield kv cur" and s': "s' = s1"
        by (simp_all add: s1_def)
      from tp Cons have tb: "tb_fps s fd = Some (kv # unr)" by simp
      have S1: "sound w ig N files E N s1"
        by (rule sound_yield [OF S tb]) (simp_all add: s1_def)
      have "progress s < progress s1" by (simp add: progress_def s1_def)
      moreover have "tagged (trace s1) = tagged (trace s) @ [(fd, kv)]" by (simp add: s1_def)
      moreover have "read_fds s1 = read_fds s" by (simp add: s1_def)
      ultimately show ?thesis using r s' S1 by auto
    next
      case Nil
      define rc where "rc = rcode (hadoop w p)"
      define s4 where
        "s4 = s\<lparr>trace := trace s @ [Waited fd rc], procs := (procs s)(fd := None),
                tb_fps := (tb_fps s)(fd := None), read_fds := read_fds s - {fd}\<rparr>"
      obtain r1 s5 where adv: "advance w ig s4 = (r1, s5)"
        by (cases "advance w ig s4") blast
      from tp Nil have tb: "tb_fps s fd = Some []" by simp
      have S4: "sound w ig N files E (N - 1) s4 \<and> 0 < N"
        by (rule sound_retire [OF S tb, where rc = rc]) (simp_all add: s4_def)
      then have lt: "N - 1 < N" by simp
      from S4 have S4': "sound w ig N files E (N - 1) s4" by simp
      note A = advance_sound [OF S4' lt adv]
      have p4: "progress s4 = Suc (progress s)" by (simp add: progress_def s4_def)
      have t4: "tagged (trace s4) = tagged (trace s)" by (simp add: s4_def)
      have r4: "read_fds s4 = read_fds s - {fd}" by (simp add: s4_def)
      from A p4 have p5: "progress s5 = Suc (progress s)" by (simp add: progress_def)
      show ?thesis
      proof (cases r1)
        case None
        from Cons.prems(2) Some tp Nil fd adv None
        have f: "for_loop w ig cur s5 = (r, s')"
          by (simp add: Let_def s4_def rc_def)
        from A None S4 have S5: "sound w ig N files E N s5" by simp
        note IH = Cons.IH [OF S5 f]
        have sub: "set (fd # cur) \<subseteq> read_fds s \<and> distinct (fd # cur)
                   \<Longrightarrow> set cur \<subseteq> read_fds s5 \<and> distinct cur"
          using A r4 by auto
        show ?thesis
        proof (cases r)
          case FDone
          with IH A t4 p5 show ?thesis by simp
        next
          case (FYield kv rest)
          with IH A t4 p5 sub show ?thesis by auto
        next
          case (FRaise e)
          with IH A t4 sub show ?thesis by auto
        qed
      next
        case (Some e)
        from Cons.prems(2) \<open>procs s fd = Some p\<close> tp Nil fd adv Some
        have r: "r = FRaise e" and s': "s' = s5"
          by (simp_all add: Let_def s4_def rc_def)
        from A Some have "Some e = E" "sound w ig N files E (N - 1) s5" "queue w ig s5 = []"
          by auto
        with r s' A t4 show ?thesis by (auto intro: exI [of _ "N - 1"])
      qed
    qed
  qed
qed

subsection \<open>Counting records\<close>

lemma active_count_spawns_waits:
  "active_count tr = int (length (spawns tr)) - int (waits tr)"
proof (induction tr)
  case Nil
  then show ?case by simp
next
  case (Cons e tr)
  then show ?case by (cases e) simp_all
qed

lemma mset_filter_disjoint:
  "\<forall>x\<in>set xs. \<not> (P x \<and> Q x) \<Longrightarrow>
   mset (map f (filter (\<lambda>x. P x \<or> Q x) xs))
     = mset (map f (filter P xs)) + mset (map f (filter Q xs))"
  by (induction xs) auto

text \<open>Records tagged with distinct keys fall into one class per key.\<close>

lemma mset_by_key:
  "distinct ks \<Longrightarrow>
   mset (map snd (filter (\<lambda>x. fst x \<in> set ks) tg))
     = (\<Sum>k\<leftarrow>ks. mset (map snd (filter (\<lambda>x. fst x = k) tg)))"
proof (induction ks)
  case Nil
  then show ?case by simp
next
  case (Cons k ks)
  then have dis: "\<forall>x\<in>set tg. \<not> (fst x = k \<and> fst x \<in> set ks)" by auto
  have "mset (map snd (filter (\<lambda>x. fst x \<in> set (k # ks)) tg))
          = mset (map snd (filter (\<lambda>x. fst x = k \<or> fst x \<in> set ks) tg))"
    by simp
  also have "\<dots> = mset (map snd (filter (\<lambda>x. fst x = k) tg))
                  + mset (map snd (filter (\<lambda>x. fst x \<in> set ks) tg))"
    using dis by (rule mset_filter_disjoint)
  finally show ?case using Cons by simp
qed

lemma yields_by_source:
  assumes "acct w s"
  shows "mset (yields (trace s))
           = (\<Sum>x\<leftarrow>spawns (trace s). mset (yields_of (fst x) (trace s)))"
proof -
  let ?sp = "spawns (trace s)" and ?tg = "tagged (trace s)"
  from assms have fds: "map fst ?sp = [0..<next_fd s]"
    and tags: "\<forall>x\<in>set ?tg. fst x < next_fd s"
    by (simp_all add: acct_def)
  from fds have d: "distinct (map fst ?sp)" by simp
  from fds tags have "\<forall>x\<in>set ?tg. fst x \<in> set (map fst ?sp)" by simp
  then have all: "filter (\<lambda>x. fst x \<in> set (map fst ?sp)) ?tg = ?tg"
    by (simp add: filter_id_conv)
  have "mset (yields (trace s)) = mset (map snd (filter (\<lambda>x. fst x \<in> set (map fst ?sp)) ?tg))"
    using all by (simp add: yields_def)
  also have "\<dots> = (\<Sum>k\<leftarrow>map fst ?sp. mset (map snd (filter (\<lambda>x. fst x = k) ?tg)))"
    using d by (rule mset_by_key)
  also have "\<dots> = (\<Sum>x\<leftarrow>?sp. mset (yields_of (fst x) (trace s)))"
    by (simp add: yields_of_def o_def)
  finally show ?thesis .
qed

lemma size_sum_list_mset:
  "size (\<Sum>x\<leftarrow>xs. mset (f x)) = (\<Sum>x\<leftarrow>xs. length (f x))"
  by (induction xs) simp_all

lemma length_yields_by_source:
  assumes "acct w s"
  shows "length (tagged (trace s))
           = (\<Sum>x\<leftarrow>spawns (trace s). length (yields_of (fst x) (trace s)))"
proof -
  have "length (tagged (trace s)) = size (mset (yields (trace s)))"
    by (simp add: yields_def)
  also have "\<dots> = size (\<Sum>x\<leftarrow>spawns (trace s). mset (yields_of (fst x) (trace s)))"
    using assms by (simp add: yields_by_source)
  also have "\<dots> = (\<Sum>x\<leftarrow>spawns (trace s). length (yields_of (fst x) (trace s)))"
    by (rule size_sum_list_mset)
  finally show ?thesis .
qed

lemma conserved_sum:
  assumes "conserved w ig files E s"
  shows "(\<Sum>x\<leftarrow>spawns (trace s). f (dumped w (snd x)))
           + (\<Sum>p\<leftarrow>queue w ig s. f (file_records w p))
         = (\<Sum>p\<leftarrow>files. (f (file_records w p) :: 'a :: comm_monoid_add))"
proof -
  let ?g = "\<lambda>c. f (dumped w c)"
  from assms have
    eq: "map snd (spawns (trace s)) @ map (dumptb_cmd w) (queue w ig s) = map (dumptb_cmd w) files"
    by (simp add: conserved_def)
  have "(\<Sum>x\<leftarrow>spawns (trace s). f (dumped w (snd x))) + (\<Sum>p\<leftarrow>queue w ig s. f (file_records w p))
          = sum_list (map ?g (map snd (spawns (trace s)) @ map (dumptb_cmd w) (queue w ig s)))"
    by (simp add: o_def file_records_def)
  also have "\<dots> = sum_list (map ?g (map (dumptb_cmd w) files))"
    by (simp only: eq)
  also have "\<dots> = (\<Sum>p\<leftarrow>files. f (file_records w p))"
    by (simp add: o_def file_records_def)
  finally show ?thesis .
qed

text \<open>The steps done never exceed one per record and one per file.\<close>

lemma progress_bound:
  assumes S: "sound w ig N files E k s"
  shows "progress s \<le> (\<Sum>p\<leftarrow>files. length (file_records w p)) + length files"
proof -
  from S have W: "wfs s" and C: "cap N k s" and A: "acct w s"
    and V: "conserved w ig files E s"
    by (simp_all add: sound_def)
  have each: "length (yields_of (fst x) (trace s)) \<le> length (dumped w (snd x))"
    if "x \<in> set (spawns (trace s))" for x
  proof -
    from A that have "yields_of (fst x) (trace s) @ unread s (fst x) = dumped w (snd x)"
      by (simp add: acct_def)
    then have "length (yields_of (fst x) (trace s)) + length (unread s (fst x))
                 = length (dumped w (snd x))"
      by (metis length_append)
    then show ?thesis by simp
  qed
  have "length (tagged (trace s))
          = (\<Sum>x\<leftarrow>spawns (trace s). length (yields_of (fst x) (trace s)))"
    using A by (rule length_yields_by_source)
  also have "\<dots> \<le> (\<Sum>x\<leftarrow>spawns (trace s). length (dumped w (snd x)))"
    using each by (rule sum_list_mono)
  also have "\<dots> \<le> (\<Sum>p\<leftarrow>files. length (file_records w p))"
    using conserved_sum [OF V, of length] by simp
  finally have recs: "length (tagged (trace s)) \<le> (\<Sum>p\<leftarrow>files. length (file_records w p))" .
  from V have "length (map snd (spawns (trace s)) @ map (dumptb_cmd w) (queue w ig s))
                 = length (map (dumptb_cmd w) files)"
    by (simp only: conserved_def)
  then have sp: "length (spawns (trace s)) \<le> length files" by simp
  from C have "0 \<le> active_count (trace s)" by (simp add: cap_def)
  then have "waits (trace s) \<le> length (spawns (trace s))"
    by (simp add: active_count_spawns_waits)
  with sp recs show ?thesis by (simp add: progress_def)
qed

subsection \<open>The main loop\<close>

text \<open>If the main loop comes back, the invariants hold where it stands.\<close>

lemma while_loop_sound_all:
  assumes "while_loop w ig s = Some y"
  shows "\<forall>N files E. sound w ig N files E N s \<longrightarrow>
           (\<exists>k\<le>N. sound w ig N files E k (snd y))
           \<and> (\<forall>kv rest. fst y = FYield kv rest \<longrightarrow> sound w ig N files E N (snd y))"
  using assms
proof (rule while_loop.raw_induct
         [where P = "\<lambda>w ig s y. \<forall>N files E. sound w ig N files E N s \<longrightarrow>
           (\<exists>k\<le>N. sound w ig N files E k (snd y))
           \<and> (\<forall>kv rest. fst y = FYield kv rest \<longrightarrow> sound w ig N files E N (snd y))",
          rotated])
  fix loop :: "'a world \<Rightarrow> bool \<Rightarrow> 'a rstate \<Rightarrow> ('a for_result \<times> 'a rstate) option"
  fix w ig s y
  assume IH: "\<And>w ig s y. loop w ig s = Some y \<Longrightarrow>
           \<forall>N files E. sound w ig N files E N s \<longrightarrow>
             (\<exists>k\<le>N. sound w ig N files E k (snd y))
             \<and> (\<forall>kv rest. fst y = FYield kv rest \<longrightarrow> sound w ig N files E N (snd y))"
  assume body: "(if read_fds s = {} then Some (FDone, s)
      else let cur_fds = ready w (rounds s) (read_fds s)
           in case for_loop w ig cur_fds (s\<lparr>rounds := Suc (rounds s)\<rparr>) of
              (FYield kv rest, s') \<Rightarrow> Some (FYield kv rest, s')
              | (FRaise e, s') \<Rightarrow> Some (FRaise e, s')
              | (FDone, s') \<Rightarrow> loop w ig s') = Some y"
  show "\<forall>N files E. sound w ig N files E N s \<longrightarrow>
           (\<exists>k\<le>N. sound w ig N files E k (snd y))
           \<and> (\<forall>kv rest. fst y = FYield kv rest \<longrightarrow> sound w ig N files E N (snd y))"
  proof (intro allI impI)
    fix N files E
    assume S: "sound w ig N files E N s"
    show "(\<exists>k\<le>N. sound w ig N files E k (snd y))
           \<and> (\<forall>kv rest. fst y = FYield kv rest \<longrightarrow> sound w ig N files E N (snd y))"
    proof (cases "read_fds s = {}")
      case True
      with body S show ?thesis by auto
    next
      case False
      define s0 where "s0 = s\<lparr>rounds := Suc (rounds s)\<rparr>"
      obtain r s1 where f: "for_loop w ig (ready w (rounds s) (read_fds s)) s0 = (r, s1)"
        by (cases "for_loop w ig (ready w (rounds s) (read_fds s)) s0") blast
      from S have S0: "sound w ig N files E N s0" by (simp add: s0_def)
      note F = for_loop_sound [OF S0 f]
      show ?thesis
      proof (cases r)
        case FDone
        with body False f have "loop w ig s1 = Some y"
          by (simp add: Let_def s0_def)
        moreover from F FDone have "sound w ig N files E N s1" by simp
        ultimately show ?thesis using IH by blast
      next
        case (FYield kv rest)
        with body False f have "y = (FYield kv rest, s1)"
          by (simp add: Let_def s0_def)
        with F FYield show ?thesis by auto
      next
        case (FRaise e)
        with body False f have "y = (FRaise e, s1)"
          by (simp add: Let_def s0_def)
        with F FRaise show ?thesis by auto
      qed
    qed
  qed
qed

lemma while_loop_sound:
  "while_loop w ig s = Some (r, s') \<Longrightarrow> sound w ig N files E N s \<Longrightarrow>
   (\<exists>k\<le>N. sound w ig N files E k s')
   \<and> (\<forall>kv rest. r = FYield kv rest \<longrightarrow> sound w ig N files E N s')"
  using while_loop_sound_all [of w ig s "(r, s')"] by simp

text \<open>
  When \<^verbatim>\<open>select\<close> behaves, the main loop comes back: with the next record, at the
  end of the work, or with the error of the enumeration.
\<close>

lemma while_loop_total:
  assumes sel: "select_ok w"
  shows "sound w ig N files E N s \<Longrightarrow>
   \<exists>r s'. while_loop w ig s = Some (r, s')
     \<and> (\<exists>k\<le>N. sound w ig N files E k s')
     \<and> (case r of
          FDone \<Rightarrow> read_fds s' = {} \<and> sound w ig N files E N s'
                    \<and> tagged (trace s') = tagged (trace s)
        | FYield kv rest \<Rightarrow> sound w ig N files E N s'
                    \<and> set rest \<subseteq> read_fds s' \<and> distinct rest
                    \<and> (\<exists>fd. tagged (trace s') = tagged (trace s) @ [(fd, kv)])
                    \<and> progress s < progress s'
        | FRaise e \<Rightarrow> Some e = E \<and> queue w ig s' = []
                    \<and> tagged (trace s') = tagged (trace s))"
proof (induction "(\<Sum>p\<leftarrow>files. length (file_records w p)) + length files - progress s"
         arbitrary: s rule: less_induct)
  case less
  note S = less.prems
  show ?case
  proof (cases "read_fds s = {}")
    case True
    then have "while_loop w ig s = Some (FDone, s)"
      by (subst while_loop.simps) simp
    with True S show ?thesis by auto
  next
    case False
    define cur where "cur = ready w (rounds s) (read_fds s)"
    define s0 where "s0 = s\<lparr>rounds := Suc (rounds s)\<rparr>"
    from S have "finite (read_fds s)" by (simp add: sound_def wfs_def)
    with sel False have cur: "cur \<noteq> []" "distinct cur" "set cur \<subseteq> read_fds s0"
      by (simp_all add: select_ok_def cur_def s0_def)
    obtain r s1 where f: "for_loop w ig cur s0 = (r, s1)"
      by (cases "for_loop w ig cur s0") blast
    from S have S0: "sound w ig N files E N s0" by (simp add: s0_def)
    have t0: "tagged (trace s0) = tagged (trace s)" and p0: "progress s0 = progress s"
      by (simp_all add: s0_def)
    note F = for_loop_sound [OF S0 f]
    have unfold: "while_loop w ig s =
       (case (r, s1) of
          (FDone, s') \<Rightarrow> while_loop w ig s'
        | (FYield kv rest, s') \<Rightarrow> Some (FYield kv rest, s')
        | (FRaise e, s') \<Rightarrow> Some (FRaise e, s'))"
      using False f by (subst while_loop.simps) (simp add: Let_def cur_def s0_def)
    show ?thesis
    proof (cases r)
      case FDone
      with F have S1: "sound w ig N files E N s1"
        and t1: "tagged (trace s1) = tagged (trace s)"
        and p1: "progress s1 = progress s + length cur"
        by (simp_all add: t0 p0)
      from cur p1 have gt: "progress s < progress s1" by (cases cur) simp_all
      from progress_bound [OF S1] gt
      have dec: "(\<Sum>p\<leftarrow>files. length (file_records w p)) + length files - progress s1
                   < (\<Sum>p\<leftarrow>files. length (file_records w p)) + length files - progress s"
        by simp
      from less.hyps [OF dec S1] obtain r' s' where
        R: "while_loop w ig s1 = Some (r', s')"
           "\<exists>k\<le>N. sound w ig N files E k s'"
           "case r' of
              FDone \<Rightarrow> read_fds s' = {} \<and> sound w ig N files E N s'
                        \<and> tagged (trace s') = tagged (trace s1)
            | FYield kv rest \<Rightarrow> sound w ig N files E N s'
                        \<and> set rest \<subseteq> read_fds s' \<and> distinct rest
                        \<and> (\<exists>fd. tagged (trace s') = tagged (trace s1) @ [(fd, kv)])
                        \<and> progress s1 < progress s'
            | FRaise e \<Rightarrow> Some e = E \<and> queue w ig s' = []
                        \<and> tagged (trace s') = tagged (trace s1)"
        by blast
      from unfold FDone R(1) have "while_loop w ig s = Some (r', s')" by simp
      with R(2) R(3) t1 gt show ?thesis
        by (cases r') auto
    next
      case (FYield kv rest)
      with unfold have "while_loop w ig s = Some (FYield kv rest, s1)" by simp
      with F FYield cur t0 p0 show ?thesis by auto
    next
      case (FRaise e)
      with unfold have "while_loop w ig s = Some (FRaise e, s1)" by simp
      with F FRaise cur t0 show ?thesis by auto
    qed
  qed
qed

subsection \<open>The generator\<close>

lemma same_args_update [simp]: "same_args g (g\<lparr>pc := p, vars := s\<rparr>)"
  by (simp add: same_args_def)

lemma same_args_refl [simp]: "same_args g g"
  by (simp add: same_args_def)

lemma same_args_trans: "same_args g g' \<Longrightarrow> same_args g' g'' \<Longrightarrow> same_args g g''"
  by (simp add: same_args_def)

text \<open>The variables when the first loop starts.\<close>

lemma sound_initially:
  "sound_at w g 0 (no_vars\<lparr>path_gen := Some ([], roots_of (arg_paths g))\<rparr>)"
  by (simp add: sound_at_def sound_def wfs_def cap_def acct_def conserved_def no_vars_def
                queue_def queue_error_def all_files_def all_error_def)

lemma start_sound:
  assumes "vars g = no_vars" and "start w g = (r, s')"
  shows "(r = None \<longrightarrow> sound_at w g (capacity g) s')
       \<and> (r \<noteq> None \<longrightarrow> r = all_error w g \<and> queue w (arg_ignore_logs g) s' = [])
       \<and> (\<exists>k\<le>capacity g. sound_at w g k s')
       \<and> tagged (trace s') = []"
proof -
  let ?s0 = "no_vars\<lparr>path_gen := Some ([], roots_of (arg_paths g))\<rparr>"
  from assms have f: "fill w (arg_ignore_logs g) (capacity g) ?s0 = (r, s')"
    by (simp add: start_def capacity_def)
  have S: "sound w (arg_ignore_logs g) (capacity g) (all_files w g) (all_error w g) 0 ?s0"
    using sound_initially [of w g] by (simp add: sound_at_def)
  have "tagged (trace ?s0) = []" by (simp add: no_vars_def)
  with fill_sound [OF S _ f] show ?thesis by (simp add: sound_at_def)
qed

text \<open>Whatever \<open>next\<close> returns, the invariants hold afterwards.\<close>

lemma readtb_next_ok:
  assumes ok: "gen_ok w g" and nx: "readtb_next w g = Some (r, g')"
  shows "gen_ok w g' \<and> same_args g g'"
proof (cases "pc g")
  case Unstarted
  with ok have v: "vars g = no_vars" by (simp add: gen_ok_def)
  obtain r0 s1 where st: "start w g = (r0, s1)" by (cases "start w g") blast
  note A = start_sound [OF v st]
  show ?thesis
  proof (cases r0)
    case (Some e)
    with nx Unstarted st have "g' = g\<lparr>pc := Finished, vars := s1\<rparr>"
      by (simp add: readtb_next_def)
    with A show ?thesis
      by (simp add: gen_ok_def sound_at_def capacity_def all_files_def all_error_def)
  next
    case None
    with nx Unstarted st obtain y where
      wl: "while_loop w (arg_ignore_logs g) s1 = Some y" and y: "(r, g') = suspend g y"
      by (auto simp: readtb_next_def)
    obtain r1 s2 where y2: "y = (r1, s2)" by (cases y)
    from A None have S1: "sound w (arg_ignore_logs g) (capacity g) (all_files w g)
                            (all_error w g) (capacity g) s1"
      by (simp add: sound_at_def)
    from while_loop_sound [OF wl [unfolded y2] S1] y y2 show ?thesis
      by (cases r1)
         (auto simp: suspend_def gen_ok_def sound_at_def capacity_def all_files_def all_error_def)
  qed
next
  case (Suspended rest)
  with ok have S: "sound w (arg_ignore_logs g) (capacity g) (all_files w g)
                     (all_error w g) (capacity g) (vars g)"
    by (simp add: gen_ok_def sound_at_def)
  obtain r1 s1 where f: "for_loop w (arg_ignore_logs g) rest (vars g) = (r1, s1)"
    by (cases "for_loop w (arg_ignore_logs g) rest (vars g)") blast
  note F = for_loop_sound [OF S f]
  show ?thesis
  proof (cases r1)
    case FDone
    with nx Suspended f obtain y where
      wl: "while_loop w (arg_ignore_logs g) s1 = Some y" and y: "(r, g') = suspend g y"
      by (auto simp: readtb_next_def)
    obtain r2 s2 where y2: "y = (r2, s2)" by (cases y)
    from F FDone have S1: "sound w (arg_ignore_logs g) (capacity g) (all_files w g)
                            (all_error w g) (capacity g) s1"
      by simp
    from while_loop_sound [OF wl [unfolded y2] S1] y y2 show ?thesis
      by (cases r2)
         (auto simp: suspend_def gen_ok_def sound_at_def capacity_def all_files_def all_error_def)
  next
    case (FYield kv rest')
    with nx Suspended f have "g' = g\<lparr>pc := Suspended rest', vars := s1\<rparr>"
      by (simp add: readtb_next_def suspend_def)
    with F FYield show ?thesis
      by (simp add: gen_ok_def sound_at_def capacity_def all_files_def all_error_def)
  next
    case (FRaise e)
    with nx Suspended f have "g' = g\<lparr>pc := Finished, vars := s1\<rparr>"
      by (simp add: readtb_next_def suspend_def)
    with F FRaise show ?thesis
      by (simp add: gen_ok_def sound_at_def capacity_def all_files_def all_error_def)
  qed
next
  case Finished
  with nx have "g' = g" by (simp add: readtb_next_def)
  with ok show ?thesis by simp
qed

lemma reaches_ok:
  "reaches w g0 g \<Longrightarrow> gen_ok w g0 \<Longrightarrow> gen_ok w g \<and> same_args g0 g"
proof (induction rule: reaches.induct)
  case reaches_start
  then show ?case by simp
next
  case (reaches_next g r g')
  then have "gen_ok w g" "same_args g0 g" by simp_all
  with readtb_next_ok [OF _ reaches_next.hyps(2)] show ?case
    by (auto intro: same_args_trans)
qed

lemma readtb_ok: "gen_ok w (readtb paths ig n)"
  by (simp add: gen_ok_def readtb_def)

subsection \<open>The pool of dump processes\<close>

text \<open>
  C2.  In every state of the generator that a caller can see: at every point of the
  history so far at most \<open>num_procs\<close> dump processes were spawned and not yet retired;
  the descriptors in \<open>read_fds\<close> are exactly these processes; the processes spawned so
  far are those of the first enumerated paths, in the order of the enumeration; and
  whenever the generator is suspended at its \<^verbatim>\<open>yield\<close>, the number of active
  processes is the minimum of \<open>num_procs\<close> and the number of enumerated paths not
  retired yet.
\<close>

theorem readtb_pool_bounded:
  assumes "0 \<le> num_procs" and "reaches w (readtb paths ignore_logs num_procs) g"
  shows "(\<forall>k\<le>length (trace (vars g)). active_count (take k (trace (vars g))) \<le> num_procs)
       \<and> int (card (read_fds (vars g))) = active_count (trace (vars g))
       \<and> map snd (spawns (trace (vars g)))
           = map (dumptb_cmd w)
               (take (length (spawns (trace (vars g))))
                     (enumerated w ignore_logs (roots_of paths)))
       \<and> (\<forall>rest. pc g = Suspended rest \<longrightarrow>
            card (read_fds (vars g))
              = min (nat num_procs)
                    (length (enumerated w ignore_logs (roots_of paths))
                       - waits (trace (vars g))))"
proof -
  let ?files = "enumerated w ignore_logs (roots_of paths)"
  let ?tr = "trace (vars g)"
  from reaches_ok [OF assms(2) readtb_ok] have ok: "gen_ok w g"
    and args: "same_args (readtb paths ignore_logs num_procs) g"
    by simp_all
  from args have N: "capacity g = nat num_procs" and ig: "arg_ignore_logs g = ignore_logs"
    and files: "all_files w g = ?files"
    by (simp_all add: same_args_def capacity_def all_files_def readtb_def)
  from assms(1) have int_N: "int (nat num_procs) = num_procs" by simp
  have prefix: "map snd (spawns (trace s)) = map (dumptb_cmd w) (take (length (spawns (trace s))) fs)"
    if "conserved w ignore_logs fs E s" for s :: "'a rstate" and fs E
  proof -
    from that have eq: "map snd (spawns (trace s)) @ map (dumptb_cmd w) (queue w ignore_logs s)
                    = map (dumptb_cmd w) fs"
      by (simp add: conserved_def)
    have "take (length (spawns (trace s))) (map (dumptb_cmd w) fs) = map snd (spawns (trace s))"
      by (simp only: eq [symmetric]) simp
    then show ?thesis by (simp add: take_map)
  qed
  show ?thesis
  proof (cases "pc g")
    case Unstarted
    with ok have "vars g = no_vars" by (simp add: gen_ok_def)
    with Unstarted assms(1) show ?thesis by (simp add: no_vars_def)
  next
    case (Suspended rest)
    with ok N ig files
    have S: "sound w ignore_logs (nat num_procs) ?files (all_error w g) (nat num_procs) (vars g)"
      by (simp add: gen_ok_def sound_at_def)
    then have C: "cap (nat num_procs) (nat num_procs) (vars g)"
      and V: "conserved w ignore_logs ?files (all_error w g) (vars g)"
      by (simp_all add: sound_def)
    from C have pk: "peak (nat num_procs) ?tr" by (simp add: cap_def)
    from C have act: "int (card (read_fds (vars g))) = int (length (spawns ?tr)) - int (waits ?tr)"
      by (simp add: cap_def active_count_spawns_waits)
    have "length (map snd (spawns ?tr) @ map (dumptb_cmd w) (queue w ignore_logs (vars g)))
            = length (map (dumptb_cmd w) ?files)"
      using V by (simp only: conserved_def)
    then have len: "length (spawns ?tr) + length (queue w ignore_logs (vars g)) = length ?files"
      by simp
    have full: "queue w ignore_logs (vars g) \<noteq> [] \<Longrightarrow> card (read_fds (vars g)) = nat num_procs"
      using C by (auto simp: cap_def queue_def split: option.splits)
    from C have le: "card (read_fds (vars g)) \<le> nat num_procs" by (simp add: cap_def)
    from act have cw: "card (read_fds (vars g)) + waits ?tr = length (spawns ?tr)"
      by linarith
    have "card (read_fds (vars g)) = min (nat num_procs) (length ?files - waits ?tr)"
    proof (cases "queue w ignore_logs (vars g)")
      case Nil
      with len cw le show ?thesis by simp
    next
      case (Cons q qs)
      with full have "card (read_fds (vars g)) = nat num_procs" by simp
      with len cw show ?thesis by arith
    qed
    with C pk int_N prefix [OF V] show ?thesis by (simp add: cap_def peak_def)
  next
    case Finished
    with ok N ig files obtain k where
      S: "sound w ignore_logs (nat num_procs) ?files (all_error w g) k (vars g)"
      by (auto simp: gen_ok_def sound_at_def)
    then have C: "cap (nat num_procs) k (vars g)"
      and V: "conserved w ignore_logs ?files (all_error w g) (vars g)"
      by (simp_all add: sound_def)
    from C have pk: "peak (nat num_procs) ?tr" by (simp add: cap_def)
    with C Finished int_N prefix [OF V] show ?thesis by (simp add: cap_def peak_def)
  qed
qed

theorem readtb_pool_bounded_witness:
  "\<exists>r g. readtb_next demo (readtb (Path ''/d'') False 2) = Some (r, g)
     \<and> pc g = Suspended [1]
     \<and> (\<forall>k\<le>length (trace (vars g)). active_count (take k (trace (vars g))) \<le> 2)
     \<and> map snd (spawns (trace (vars g)))
          = [''hadoop jar hs.jar dumptb /d/_SUCCESS'', ''hadoop jar hs.jar dumptb /d/part-0'']
     \<and> card (read_fds (vars g)) = 2"
proof -
  have "map_option (\<lambda>x. (pc (snd x), length (spawns (trace (vars (snd x)))),
                          waits (trace (vars (snd x)))))
          (readtb_next demo (readtb (Path ''/d'') False 2))
          = Some (Suspended [1], 2, 0)"
    by code_simp
  then obtain r g where nx: "readtb_next demo (readtb (Path ''/d'') False 2) = Some (r, g)"
    and pc: "pc g = Suspended [1]" and sp: "length (spawns (trace (vars g))) = 2"
    and wt: "waits (trace (vars g)) = 0"
    by (cases "readtb_next demo (readtb (Path ''/d'') False 2)") auto
  have re: "reaches demo (readtb (Path ''/d'') False 2) g"
    by (rule reaches_next [OF reaches_start nx])
  have pos: "(0::int) \<le> 2" by simp
  have files: "enumerated demo False (roots_of (Path ''/d'')) = [''/d/_SUCCESS'', ''/d/part-0'']"
    by code_simp
  have cmd: "dumptb_cmd demo p = ''hadoop jar hs.jar dumptb '' @ p" for p
    by (simp add: dumptb_cmd_def demo_def)
  from readtb_pool_bounded [OF pos re, unfolded files] pc nx sp wt show ?thesis
    by (simp add: cmd)
qed

subsection \<open>The whole run\<close>

lemma progress_no_vars [simp]: "progress no_vars = 0"
  by (simp add: progress_def no_vars_def)

text \<open>
  When \<^verbatim>\<open>select\<close> behaves, one call of \<open>next\<close> on a generator that is not finished
  returns, with one more record or with the end of the run.
\<close>

lemma readtb_next_total:
  assumes sel: "select_ok w" and live: "gen_live w g"
  shows "\<exists>r g'. readtb_next w g = Some (r, g')
     \<and> (case r of
          Item kv \<Rightarrow> gen_live w g' \<and> same_args g g'
                     \<and> yields (trace (vars g')) = yields (trace (vars g)) @ [kv]
                     \<and> progress (vars g) < progress (vars g')
        | StopIteration \<Rightarrow> ended w g None g'
                     \<and> yields (trace (vars g')) = yields (trace (vars g))
        | Raised e \<Rightarrow> ended w g (Some e) g'
                     \<and> yields (trace (vars g')) = yields (trace (vars g)))"
proof -
  let ?ig = "arg_ignore_logs g" and ?N = "capacity g"
  let ?files = "all_files w g" and ?E = "all_error w g"
  have after_loop: ?thesis
    if S1: "sound w ?ig ?N ?files ?E ?N s1"
      and t1: "tagged (trace s1) = tagged (trace (vars g))"
      and p1: "progress (vars g) \<le> progress s1"
      and nx: "readtb_next w g = map_option (suspend g) (while_loop w ?ig s1)"
    for s1
  proof -
    from while_loop_total [OF sel S1] obtain r s' where
      wl: "while_loop w ?ig s1 = Some (r, s')"
      and k: "\<exists>k\<le>?N. sound w ?ig ?N ?files ?E k s'"
      and R: "case r of
          FDone \<Rightarrow> read_fds s' = {} \<and> sound w ?ig ?N ?files ?E ?N s'
                    \<and> tagged (trace s') = tagged (trace s1)
        | FYield kv rest \<Rightarrow> sound w ?ig ?N ?files ?E ?N s'
                    \<and> set rest \<subseteq> read_fds s' \<and> distinct rest
                    \<and> (\<exists>fd. tagged (trace s') = tagged (trace s1) @ [(fd, kv)])
                    \<and> progress s1 < progress s'
        | FRaise e \<Rightarrow> Some e = ?E \<and> queue w ?ig s' = []
                    \<and> tagged (trace s') = tagged (trace s1)"
      by blast
    show ?thesis
    proof (cases r)
      case FDone
      with nx wl have "readtb_next w g = Some (StopIteration, g\<lparr>pc := Finished, vars := s'\<rparr>)"
        by (simp add: suspend_def)
      with R FDone k t1 show ?thesis
        by (auto simp: ended_def sound_at_def yields_def)
    next
      case (FYield kv rest)
      with nx wl have "readtb_next w g = Some (Item kv, g\<lparr>pc := Suspended rest, vars := s'\<rparr>)"
        by (simp add: suspend_def)
      with R FYield t1 p1 show ?thesis
        by (auto simp: gen_live_def sound_at_def capacity_def all_files_def all_error_def
                       yields_def)
    next
      case (FRaise e)
      with nx wl have "readtb_next w g = Some (Raised e, g\<lparr>pc := Finished, vars := s'\<rparr>)"
        by (simp add: suspend_def)
      with R FRaise k t1 show ?thesis
        by (auto simp: ended_def sound_at_def yields_def)
    qed
  qed
  show ?thesis
  proof (cases "pc g")
    case Unstarted
    with live have v: "vars g = no_vars" by (simp add: gen_live_def)
    obtain r0 s1 where st: "start w g = (r0, s1)" by (cases "start w g") blast
    note A = start_sound [OF v st]
    from v have t0: "tagged (trace (vars g)) = []" by (simp add: no_vars_def)
    show ?thesis
    proof (cases r0)
      case (Some e)
      with Unstarted st
      have "readtb_next w g = Some (Raised e, g\<lparr>pc := Finished, vars := s1\<rparr>)"
        by (simp add: readtb_next_def)
      with A Some t0 show ?thesis
        by (auto simp: ended_def yields_def)
    next
      case None
      with Unstarted st
      have nx: "readtb_next w g = map_option (suspend g) (while_loop w ?ig s1)"
        by (simp add: readtb_next_def)
      from A None have S1: "sound w ?ig ?N ?files ?E ?N s1" by (simp add: sound_at_def)
      from A t0 have t1: "tagged (trace s1) = tagged (trace (vars g))" by simp
      from v have p1: "progress (vars g) \<le> progress s1" by simp
      from S1 t1 p1 nx show ?thesis by (rule after_loop)
    qed
  next
    case (Suspended rest)
    with live have S: "sound w ?ig ?N ?files ?E ?N (vars g)"
      and rest: "set rest \<subseteq> read_fds (vars g) \<and> distinct rest"
      by (simp_all add: gen_live_def sound_at_def)
    obtain r1 s1 where f: "for_loop w ?ig rest (vars g) = (r1, s1)"
      by (cases "for_loop w ?ig rest (vars g)") blast
    note F = for_loop_sound [OF S f]
    show ?thesis
    proof (cases r1)
      case FDone
      with Suspended f
      have nx: "readtb_next w g = map_option (suspend g) (while_loop w ?ig s1)"
        by (simp add: readtb_next_def)
      from F FDone have S1: "sound w ?ig ?N ?files ?E ?N s1"
        and t1: "tagged (trace s1) = tagged (trace (vars g))"
        and p1: "progress (vars g) \<le> progress s1"
        by simp_all
      from S1 t1 p1 nx show ?thesis by (rule after_loop)
    next
      case (FYield kv rest')
      with Suspended f
      have "readtb_next w g = Some (Item kv, g\<lparr>pc := Suspended rest', vars := s1\<rparr>)"
        by (simp add: readtb_next_def suspend_def)
      with F FYield rest show ?thesis
        by (auto simp: gen_live_def sound_at_def capacity_def all_files_def all_error_def
                       yields_def)
    next
      case (FRaise e)
      with Suspended f
      have "readtb_next w g = Some (Raised e, g\<lparr>pc := Finished, vars := s1\<rparr>)"
        by (simp add: readtb_next_def suspend_def)
      with F FRaise rest show ?thesis
        by (auto simp: ended_def sound_at_def yields_def)
    qed
  next
    case Finished
    with live show ?thesis by (simp add: gen_live_def)
  qed
qed

lemma ended_args: "same_args g g' \<Longrightarrow> ended w g' e g'' \<Longrightarrow> ended w g e g''"
  by (simp add: ended_def sound_at_def capacity_def all_files_def all_error_def same_args_def)

lemma live_progress_bound:
  assumes "gen_live w g"
  shows "progress (vars g)
           \<le> (\<Sum>p\<leftarrow>all_files w g. length (file_records w p)) + length (all_files w g)"
proof (cases "pc g")
  case Unstarted
  with assms show ?thesis by (simp add: gen_live_def)
next
  case (Suspended rest)
  with assms have "sound w (arg_ignore_logs g) (capacity g) (all_files w g) (all_error w g)
                     (capacity g) (vars g)"
    by (simp add: gen_live_def sound_at_def)
  then show ?thesis by (rule progress_bound)
next
  case Finished
  with assms show ?thesis by (simp add: gen_live_def)
qed

text \<open>When \<^verbatim>\<open>select\<close> behaves, taking everything from the generator comes to an end.\<close>

lemma drain_total:
  assumes sel: "select_ok w"
  shows "gen_live w g \<Longrightarrow> acc = yields (trace (vars g)) \<Longrightarrow>
         \<exists>e g'. drain w g acc = Some (yields (trace (vars g')), e, g') \<and> ended w g e g'"
proof (induction "(\<Sum>p\<leftarrow>all_files w g. length (file_records w p)) + length (all_files w g)
                    - progress (vars g)"
         arbitrary: g acc rule: less_induct)
  case less
  from readtb_next_total [OF sel less.prems(1)] obtain r g1 where
    nx: "readtb_next w g = Some (r, g1)"
    and R: "case r of
          Item kv \<Rightarrow> gen_live w g1 \<and> same_args g g1
                     \<and> yields (trace (vars g1)) = yields (trace (vars g)) @ [kv]
                     \<and> progress (vars g) < progress (vars g1)
        | StopIteration \<Rightarrow> ended w g None g1
                     \<and> yields (trace (vars g1)) = yields (trace (vars g))
        | Raised e \<Rightarrow> ended w g (Some e) g1
                     \<and> yields (trace (vars g1)) = yields (trace (vars g))"
    by blast
  show ?case
  proof (cases r)
    case (Item kv)
    with R have live1: "gen_live w g1" and args: "same_args g g1"
      and y1: "yields (trace (vars g1)) = yields (trace (vars g)) @ [kv]"
      and gt: "progress (vars g) < progress (vars g1)"
      by simp_all
    from args have files: "all_files w g1 = all_files w g"
      by (simp add: all_files_def same_args_def)
    from live_progress_bound [OF live1] gt files
    have dec: "(\<Sum>p\<leftarrow>all_files w g1. length (file_records w p)) + length (all_files w g1)
                 - progress (vars g1)
               < (\<Sum>p\<leftarrow>all_files w g. length (file_records w p)) + length (all_files w g)
                 - progress (vars g)"
      by simp
    from less.prems(2) y1 have acc1: "acc @ [kv] = yields (trace (vars g1))" by simp
    from less.hyps [OF dec live1 acc1] obtain e g' where
      d: "drain w g1 (acc @ [kv]) = Some (yields (trace (vars g')), e, g')"
      and en: "ended w g1 e g'"
      by blast
    from nx Item d have "drain w g acc = Some (yields (trace (vars g')), e, g')"
      by (subst drain.simps) simp
    with ended_args [OF args en] show ?thesis by blast
  next
    case StopIteration
    with nx have "drain w g acc = Some (acc, None, g1)"
      by (subst drain.simps) simp
    with R StopIteration less.prems(2) show ?thesis by auto
  next
    case (Raised e)
    with nx have "drain w g acc = Some (acc, Some e, g1)"
      by (subst drain.simps) simp
    with R Raised less.prems(2) show ?thesis by auto
  qed
qed

lemma read_all_total:
  assumes "select_ok w"
  shows "\<exists>e g'. read_all w paths ig n = Some (yields (trace (vars g')), e, g')
           \<and> ended w (readtb paths ig n) e g'"
proof -
  have live: "gen_live w (readtb paths ig n)"
    by (simp add: gen_live_def readtb_def)
  have acc: "[] = yields (trace (vars (readtb paths ig n :: 'a generator)))"
    by (simp add: readtb_def no_vars_def yields_def)
  from drain_total [OF assms live acc] show ?thesis by (simp add: read_all_def)
qed

text \<open>
  With room for at least one process, a run ends as the enumeration does, and a process
  has been spawned for every path enumerated before that.
\<close>

lemma ended_spawned_all:
  assumes en: "ended w g e g'" and pos: "0 < capacity g"
  shows "e = all_error w g
       \<and> map snd (spawns (trace (vars g'))) = map (dumptb_cmd w) (all_files w g)"
proof -
  let ?s = "vars g'"
  from en obtain k where S: "sound_at w g k ?s" by (auto simp: ended_def)
  then have V: "conserved w (arg_ignore_logs g) (all_files w g) (all_error w g) ?s"
    by (simp add: sound_at_def sound_def)
  have q: "queue w (arg_ignore_logs g) ?s = [] \<and> e = all_error w g"
  proof (cases e)
    case None
    with en have empty: "read_fds ?s = {}" and "sound_at w g (capacity g) ?s"
      by (simp_all add: ended_def)
    then have "cap (capacity g) (capacity g) ?s" by (simp add: sound_at_def sound_def)
    with empty pos have "path_gen ?s = None"
      by (cases "path_gen ?s") (auto simp: cap_def)
    with V None show ?thesis by (simp add: queue_def queue_error_def conserved_def)
  next
    case (Some x)
    with en show ?thesis by (simp add: ended_def)
  qed
  with V show ?thesis by (simp add: conserved_def)
qed

lemma spawns_zip:
  assumes "acct w s" and "map snd (spawns (trace s)) = map (dumptb_cmd w) files"
  shows "spawns (trace s) = zip [0..<length files] (map (dumptb_cmd w) files)"
proof -
  from assms(1) have fst: "map fst (spawns (trace s)) = [0..<next_fd s]"
    by (simp add: acct_def)
  have "length (map snd (spawns (trace s))) = length (map (dumptb_cmd w) files)"
    by (simp only: assms(2))
  then have len: "length (spawns (trace s)) = length files" by simp
  have "length (map fst (spawns (trace s))) = length [0..<next_fd s]"
    by (simp only: fst)
  with len have "next_fd s = length files" by simp
  with fst have fst': "map fst (spawns (trace s)) = [0..<length files]" by simp
  have "spawns (trace s) = zip (map fst (spawns (trace s))) (map snd (spawns (trace s)))"
    by (simp add: zip_map_fst_snd)
  then show ?thesis by (simp only: fst' assms(2))
qed

text \<open>A run that ends without an error has handed over what every process dumped.\<close>

lemma ended_delivered_all:
  assumes en: "ended w g None g'" and pos: "0 < capacity g"
  shows "(\<forall>i<length (all_files w g).
            yields_of i (trace (vars g')) = file_records w (all_files w g ! i))
       \<and> mset (yields (trace (vars g'))) = (\<Sum>p\<leftarrow>all_files w g. mset (file_records w p))
       \<and> length (yields (trace (vars g')))
           = (\<Sum>p\<leftarrow>all_files w g. length (file_records w p))"
proof -
  let ?s = "vars g'" and ?files = "all_files w g"
  from en have empty: "read_fds ?s = {}"
    and S: "sound w (arg_ignore_logs g) (capacity g) ?files (all_error w g) (capacity g) ?s"
    by (simp_all add: ended_def sound_at_def)
  from S have W: "wfs ?s" and A: "acct w ?s" by (simp_all add: sound_def)
  from W empty have "tb_fps ?s = Map.empty" by (auto simp: wfs_def)
  then have unread: "unread ?s fd = []" for fd by (simp add: unread_def)
  from A unread have each: "\<forall>x\<in>set (spawns (trace ?s)).
       yields_of (fst x) (trace ?s) = dumped w (snd x)"
    by (simp add: acct_def)
  from ended_spawned_all [OF en pos]
  have cmds: "map snd (spawns (trace ?s)) = map (dumptb_cmd w) ?files" by simp
  from spawns_zip [OF A cmds]
  have sp: "spawns (trace ?s) = zip [0..<length ?files] (map (dumptb_cmd w) ?files)" .
  have per_file: "\<forall>i<length ?files. yields_of i (trace ?s) = file_records w (?files ! i)"
  proof (intro allI impI)
    fix i assume i: "i < length ?files"
    let ?z = "zip [0..<length ?files] (map (dumptb_cmd w) ?files)"
    from i have "?z ! i = (i, dumptb_cmd w (?files ! i))" by simp
    moreover from i have "?z ! i \<in> set ?z" by (intro nth_mem) simp
    ultimately have "(i, dumptb_cmd w (?files ! i)) \<in> set (spawns (trace ?s))"
      by (simp only: sp)
    with each have "yields_of (fst (i, dumptb_cmd w (?files ! i))) (trace ?s)
                      = dumped w (snd (i, dumptb_cmd w (?files ! i)))"
      by (rule bspec)
    then show "yields_of i (trace ?s) = file_records w (?files ! i)"
      by (simp add: file_records_def)
  qed
  have "mset (yields (trace ?s)) = (\<Sum>x\<leftarrow>spawns (trace ?s). mset (yields_of (fst x) (trace ?s)))"
    using A by (rule yields_by_source)
  also have "\<dots> = (\<Sum>x\<leftarrow>spawns (trace ?s). mset (dumped w (snd x)))"
  proof -
    have "map (\<lambda>x. mset (yields_of (fst x) (trace ?s))) (spawns (trace ?s))
            = map (\<lambda>x. mset (dumped w (snd x))) (spawns (trace ?s))"
      by (rule map_cong) (simp_all add: each)
    then show ?thesis by (simp only:)
  qed
  also have "\<dots> = (\<Sum>c\<leftarrow>map snd (spawns (trace ?s)). mset (dumped w c))"
    by (simp add: o_def)
  also have "\<dots> = (\<Sum>c\<leftarrow>map (dumptb_cmd w) ?files. mset (dumped w c))"
    by (simp only: cmds)
  also have "\<dots> = (\<Sum>p\<leftarrow>?files. mset (file_records w p))"
    by (simp add: o_def file_records_def)
  finally have ms: "mset (yields (trace ?s)) = (\<Sum>p\<leftarrow>?files. mset (file_records w p))" .
  have "length (yields (trace ?s)) = size (mset (yields (trace ?s)))" by simp
  also have "\<dots> = size (\<Sum>p\<leftarrow>?files. mset (file_records w p))"
    by (simp only: ms)
  also have "\<dots> = (\<Sum>p\<leftarrow>?files. length (file_records w p))"
    by (rule size_sum_list_mset)
  finally have len: "length (yields (trace ?s)) = (\<Sum>p\<leftarrow>?files. length (file_records w p))" .
  from per_file ms len show ?thesis by (intro conjI)
qed

subsection \<open>Every record, once, in the order of its file\<close>

lemma readtb_args [simp]:
  "capacity (readtb paths ig n) = nat n"
  "all_files w (readtb paths ig n) = enumerated w ig (roots_of paths)"
  "all_error w (readtb paths ig n) = enumeration_error w ig (roots_of paths)"
  by (simp_all add: capacity_def all_files_def all_error_def readtb_def)

text \<open>
  C1.  When every root can be enumerated and there is room for at least one process,
  taking everything from \<^verbatim>\<open>readtb\<close> ends without an error.  The records received
  are as many as the enumerated files hold together, as a multiset they are the union
  of the records of the files, and the records received from the \<open>i\<close>-th enumerated
  file (its process has descriptor \<open>i\<close>) are the records of that file in its order.
  Nothing is said on how the files interleave.
\<close>

theorem readtb_delivers_every_record_once:
  assumes "select_ok w" and "0 < num_procs"
      and "enumeration_error w ignore_logs (roots_of paths) = None"
  shows "\<exists>g. read_all w paths ignore_logs num_procs
               = Some (yields (trace (vars g)), None, g)
           \<and> length (yields (trace (vars g)))
               = (\<Sum>p\<leftarrow>enumerated w ignore_logs (roots_of paths). length (file_records w p))
           \<and> mset (yields (trace (vars g)))
               = (\<Sum>p\<leftarrow>enumerated w ignore_logs (roots_of paths). mset (file_records w p))
           \<and> (\<forall>i<length (enumerated w ignore_logs (roots_of paths)).
                 yields_of i (trace (vars g))
                   = file_records w (enumerated w ignore_logs (roots_of paths) ! i))"
proof -
  let ?g0 = "readtb paths ignore_logs num_procs :: 'a generator"
  from read_all_total [OF assms(1)] obtain e g where
    run: "read_all w paths ignore_logs num_procs = Some (yields (trace (vars g)), e, g)"
    and en: "ended w ?g0 e g"
    by blast
  from assms(2) have pos: "0 < capacity ?g0" by simp
  from ended_spawned_all [OF en pos] assms(3) have e: "e = None" by simp
  from ended_delivered_all [OF en [unfolded e] pos] run e show ?thesis by auto
qed

theorem readtb_delivers_witness:
  "select_ok demo
   \<and> (\<exists>g. read_all demo (Path ''/d'') False 2 = Some ([''c'', ''a'', ''b''], None, g)
          \<and> yields_of 0 (trace (vars g)) = [''c'']
          \<and> yields_of 1 (trace (vars g)) = [''a'', ''b''])"
proof -
  have sel: "select_ok demo" by (simp add: select_ok_def demo_def)
  have pos: "(0::int) < 2" by simp
  have en: "enumeration_error demo False (roots_of (Path ''/d'')) = None" by code_simp
  have files: "enumerated demo False (roots_of (Path ''/d'')) = [''/d/_SUCCESS'', ''/d/part-0'']"
    by code_simp
  have recs: "file_records demo ''/d/_SUCCESS'' = [''c'']"
             "file_records demo ''/d/part-0'' = [''a'', ''b'']"
    by code_simp+
  have out: "map_option fst (read_all demo (Path ''/d'') False 2) = Some [''c'', ''a'', ''b'']"
    by code_simp
  from readtb_delivers_every_record_once [OF sel pos en] obtain g where
    run: "read_all demo (Path ''/d'') False 2 = Some (yields (trace (vars g)), None, g)"
    and each: "\<forall>i<length (enumerated demo False (roots_of (Path ''/d''))).
                 yields_of i (trace (vars g))
                   = file_records demo (enumerated demo False (roots_of (Path ''/d'')) ! i)"
    by blast
  from run out have y: "yields (trace (vars g)) = [''c'', ''a'', ''b'']" by simp
  from each have "yields_of 0 (trace (vars g)) = [''c'']"
                 "yields_of 1 (trace (vars g)) = [''a'', ''b'']"
    by (simp_all add: files recs)
  with sel run y show ?thesis by auto
qed

subsection \<open>No process, no work\<close>

text \<open>
  C9.  With \<open>num_procs = 0\<close> a whole run gives no record and no error, whatever the roots
  are: nothing is listed, nothing is spawned, nothing is yielded.
\<close>

theorem readtb_zero_procs_does_nothing:
  "\<exists>g. read_all w paths ignore_logs 0 = Some ([], None, g)
       \<and> trace (vars g) = [] \<and> read_fds (vars g) = {} \<and> pc g = Finished"
proof -
  let ?s = "no_vars\<lparr>path_gen := Some ([], roots_of paths)\<rparr> :: 'a rstate"
  let ?g = "(readtb paths ignore_logs 0)\<lparr>pc := Finished, vars := ?s\<rparr>"
  have "while_loop w ignore_logs ?s = Some (FDone, ?s)"
    by (subst while_loop.simps) (simp add: no_vars_def)
  then have "readtb_next w (readtb paths ignore_logs 0) = Some (StopIteration, ?g)"
    by (simp add: readtb_next_def readtb_def start_def suspend_def)
  then have "read_all w paths ignore_logs 0 = Some ([], None, ?g)"
    unfolding read_all_def by (subst drain.simps) simp
  then show ?thesis by (simp add: no_vars_def)
qed

subsection \<open>Roots that cannot be listed\<close>

lemma root_paths_unlisted: "ls w root_path = Inl e \<Longrightarrow> root_paths w ig root_path = Inl (no_such_file root_path)"
  by (simp add: root_paths_def)

lemma enumerated_up_to_failure:
  "enumeration_error w ig good = None \<Longrightarrow> root_paths w ig bad = Inl e \<Longrightarrow>
   enumerated w ig (good @ bad # rest) = enumerated w ig good
   \<and> enumeration_error w ig (good @ bad # rest) = Some e"
  by (induction good) (auto split: sum.splits)

lemma no_spawn_no_yield:
  assumes "acct w s" and "spawns (trace s) = []"
  shows "yields (trace s) = []"
proof -
  from assms have "[0..<next_fd s] = []" by (simp add: acct_def)
  then have "next_fd s = 0" by simp
  with assms(1) have "\<forall>x\<in>set (tagged (trace s)). False" by (simp add: acct_def)
  then have "tagged (trace s) = []" by (cases "tagged (trace s)") auto
  then show ?thesis by (simp add: yields_def)
qed

text \<open>
  C3, as the claim states it, fails: the roots are listed one after the other, each
  when the pool asks for a path.  Here the second root does not exist, and the error
  is raised after a process was spawned for the file of the first root and after both
  records of that file were yielded.
\<close>

theorem readtb_failure_after_partial_run:
  "summary (read_all demo (Paths [''/d'', ''/e'']) True 1)
     = Some ([''a'', ''b''],
             Some (IOError (''No such file or directory: '' @ [CHR 0x27] @ ''/e'' @ [CHR 0x27])),
             [(0, ''hadoop jar hs.jar dumptb /d/part-0'')])"
  by code_simp

text \<open>
  C3, amended.  When there is room for a process, \<^verbatim>\<open>select\<close> behaves, and a root
  cannot be listed while all roots before it can be enumerated, a whole run ends with
  the error that names this root; by then a process has been spawned for every path of
  the roots before it, in the order of the enumeration, and for no other path.  So
  nothing was spawned exactly when the roots before it contribute no path, and then no
  record was yielded either.
\<close>

theorem readtb_enumeration_failure:
  assumes "select_ok w" and "0 < num_procs"
      and "roots_of paths = good @ bad # rest"
      and "enumeration_error w ignore_logs good = None"
      and "ls w bad = Inl e"
  shows "\<exists>g. read_all w paths ignore_logs num_procs
               = Some (yields (trace (vars g)), Some (no_such_file bad), g)
           \<and> map snd (spawns (trace (vars g)))
               = map (dumptb_cmd w) (enumerated w ignore_logs good)
           \<and> (spawns (trace (vars g)) = [] \<longleftrightarrow> enumerated w ignore_logs good = [])
           \<and> (enumerated w ignore_logs good = [] \<longrightarrow> yields (trace (vars g)) = [])"
proof -
  let ?g0 = "readtb paths ignore_logs num_procs :: 'a generator"
  from read_all_total [OF assms(1)] obtain e' g where
    run: "read_all w paths ignore_logs num_procs = Some (yields (trace (vars g)), e', g)"
    and en: "ended w ?g0 e' g"
    by blast
  from assms(2) have pos: "0 < capacity ?g0" by simp
  from enumerated_up_to_failure [OF assms(4) root_paths_unlisted [OF assms(5)]] assms(3)
  have files: "enumerated w ignore_logs (roots_of paths) = enumerated w ignore_logs good"
    and err: "enumeration_error w ignore_logs (roots_of paths) = Some (no_such_file bad)"
    by simp_all
  from ended_spawned_all [OF en pos] files err
  have e': "e' = Some (no_such_file bad)"
    and sp: "map snd (spawns (trace (vars g))) = map (dumptb_cmd w) (enumerated w ignore_logs good)"
    by simp_all
  from en obtain k where "sound_at w ?g0 k (vars g)" by (auto simp: ended_def)
  then have A: "acct w (vars g)" by (simp add: sound_at_def sound_def)
  have "length (map snd (spawns (trace (vars g))))
          = length (map (dumptb_cmd w) (enumerated w ignore_logs good))"
    by (simp only: sp)
  then have "length (spawns (trace (vars g))) = length (enumerated w ignore_logs good)"
    by simp
  then have iff: "spawns (trace (vars g)) = [] \<longleftrightarrow> enumerated w ignore_logs good = []"
    by (metis length_0_conv)
  have none: "yields (trace (vars g)) = []" if "enumerated w ignore_logs good = []"
    using that iff no_spawn_no_yield [OF A] by simp
  from run e' sp iff none show ?thesis by blast
qed

theorem readtb_enumeration_failure_witness:
  "(\<exists>g. read_all demo_more (Paths [''/d'', ''/e'']) True 1
           = Some (yields (trace (vars g)), Some (no_such_file ''/e''), g)
        \<and> map snd (spawns (trace (vars g))) = [''hadoop jar hs.jar dumptb /d/part-0''])
   \<and> (\<exists>g. read_all demo_more (Paths [''/empty'', ''/e'']) True 1
           = Some ([], Some (no_such_file ''/e''), g)
        \<and> spawns (trace (vars g)) = [])"
proof -
  have sel: "select_ok demo_more" by (simp add: select_ok_def demo_more_def demo_def)
  have pos: "(0::int) < 1" by simp
  have bad: "ls demo_more ''/e'' = Inl (IOError ''Ran[hadoop fs -ls /e]: No such file'')"
    by code_simp
  have r1: "roots_of (Paths [''/d'', ''/e'']) = [''/d''] @ ''/e'' # []"
    by (simp add: roots_of_def)
  have g1: "enumeration_error demo_more True [''/d''] = None" by code_simp
  have f1: "enumerated demo_more True [''/d''] = [''/d/part-0'']" by code_simp
  have r2: "roots_of (Paths [''/empty'', ''/e'']) = [''/empty''] @ ''/e'' # []"
    by (simp add: roots_of_def)
  have g2: "enumeration_error demo_more True [''/empty''] = None" by code_simp
  have f2: "enumerated demo_more True [''/empty''] = []" by code_simp
  have cmd: "dumptb_cmd demo_more p = ''hadoop jar hs.jar dumptb '' @ p" for p
    by (simp add: dumptb_cmd_def demo_more_def demo_def)
  from readtb_enumeration_failure [OF sel pos r1 g1 bad, unfolded f1]
  have first: "\<exists>g. read_all demo_more (Paths [''/d'', ''/e'']) True 1
           = Some (yields (trace (vars g)), Some (no_such_file ''/e''), g)
        \<and> map snd (spawns (trace (vars g))) = [''hadoop jar hs.jar dumptb /d/part-0'']"
    by (auto simp: cmd)
  from readtb_enumeration_failure [OF sel pos r2 g2 bad, unfolded f2]
  have second: "\<exists>g. read_all demo_more (Paths [''/empty'', ''/e'']) True 1
           = Some ([], Some (no_such_file ''/e''), g)
        \<and> spawns (trace (vars g)) = []"
    by auto
  from first second show ?thesis by (intro conjI)
qed

subsection \<open>The call and the requests\<close>

lemma drain_outcomes_all:
  assumes "drain w g acc = Some y"
  shows "\<exists>kvs. fst y = acc @ kvs
           \<and> outcomes w g (Suc (length kvs)) = Some (map Item kvs @ [last_outcome (fst (snd y))])"
  using assms
proof (rule drain.raw_induct
         [where P = "\<lambda>w g acc y. \<exists>kvs. fst y = acc @ kvs
           \<and> outcomes w g (Suc (length kvs)) = Some (map Item kvs @ [last_outcome (fst (snd y))])",
          rotated])
  fix dr :: "'a world \<Rightarrow> 'a generator \<Rightarrow> 'a list
               \<Rightarrow> ('a list \<times> error option \<times> 'a generator) option"
  fix w g acc y
  assume IH: "\<And>w g acc y. dr w g acc = Some y \<Longrightarrow>
           \<exists>kvs. fst y = acc @ kvs
             \<and> outcomes w g (Suc (length kvs))
                 = Some (map Item kvs @ [last_outcome (fst (snd y))])"
  assume body: "(case readtb_next w g of None \<Rightarrow> None
      | Some (Item kv, g') \<Rightarrow> dr w g' (acc @ [kv])
      | Some (StopIteration, g') \<Rightarrow> Some (acc, None, g')
      | Some (Raised e, g') \<Rightarrow> Some (acc, Some e, g')) = Some y"
  from body obtain r g1 where nx: "readtb_next w g = Some (r, g1)"
    by (cases "readtb_next w g") auto
  show "\<exists>kvs. fst y = acc @ kvs
           \<and> outcomes w g (Suc (length kvs)) = Some (map Item kvs @ [last_outcome (fst (snd y))])"
  proof (cases r)
    case (Item kv)
    with body nx have "dr w g1 (acc @ [kv]) = Some y" by simp
    from IH [OF this] obtain kvs where
      y: "fst y = (acc @ [kv]) @ kvs"
      and o: "outcomes w g1 (Suc (length kvs))
                = Some (map Item kvs @ [last_outcome (fst (snd y))])"
      by blast
    from nx Item o
    have "outcomes w g (Suc (length (kv # kvs)))
            = Some (map Item (kv # kvs) @ [last_outcome (fst (snd y))])"
      by simp
    with y show ?thesis by (intro exI [of _ "kv # kvs"]) simp
  next
    case StopIteration
    with body nx have "y = (acc, None, g1)" by simp
    with nx StopIteration show ?thesis
      by (intro exI [of _ "[]"]) (simp add: last_outcome_def)
  next
    case (Raised e)
    with body nx have "y = (acc, Some e, g1)" by simp
    with nx Raised show ?thesis
      by (intro exI [of _ "[]"]) (simp add: last_outcome_def)
  qed
qed

text \<open>
  When the roots before the root that cannot be listed hold fewer paths than there is
  room for, the first loop of \<^verbatim>\<open>readtb\<close> reaches that root.
\<close>

lemma start_reaches_failure:
  assumes v: "vars g = no_vars"
      and err: "all_error w g = Some e"
      and few: "length (all_files w g) < capacity g"
  shows "\<exists>s'. start w g = (Some e, s') \<and> tagged (trace s') = []
           \<and> map snd (spawns (trace s')) = map (dumptb_cmd w) (all_files w g)"
proof -
  let ?ig = "arg_ignore_logs g"
  obtain r s' where st: "start w g = (r, s')" by (cases "start w g") blast
  note A = start_sound [OF v st]
  from A obtain k where "sound_at w g k s'" by blast
  then have V: "conserved w ?ig (all_files w g) (all_error w g) s'"
    by (simp add: sound_at_def sound_def)
  have "length (map snd (spawns (trace s')) @ map (dumptb_cmd w) (queue w ?ig s'))
          = length (map (dumptb_cmd w) (all_files w g))"
    using V by (simp only: conserved_def)
  then have len: "length (spawns (trace s')) \<le> length (all_files w g)" by simp
  have "r \<noteq> None"
  proof
    assume "r = None"
    with A have "cap (capacity g) (capacity g) s'" by (simp add: sound_at_def sound_def)
    then have act: "int (card (read_fds s')) = int (length (spawns (trace s'))) - int (waits (trace s'))"
      and full: "path_gen s' \<noteq> None \<longrightarrow> card (read_fds s') = capacity g"
      by (simp_all add: cap_def active_count_spawns_waits)
    from act len few have "card (read_fds s') < capacity g" by linarith
    with full have "path_gen s' = None" by (cases "path_gen s'") auto
    with V err show False by (simp add: conserved_def queue_error_def)
  qed
  with A err have r: "r = Some e" and q: "queue w ?ig s' = []" by simp_all
  from V q have "map snd (spawns (trace s')) = map (dumptb_cmd w) (all_files w g)"
    by (simp add: conserved_def)
  with st r A show ?thesis by simp
qed

text \<open>
  C10, as the claim states it, fails where it says that an enumeration failure occurs
  when the first record is requested: here the second root does not exist and there is
  room for one process; the first two requests return the records of the first root
  and it is the third request that lists the second root and raises.
\<close>

theorem readtb_failure_at_third_request:
  "outcomes demo (readtb (Paths [''/d'', ''/e'']) True 1) 3
     = Some [Item ''a'', Item ''b'',
             Raised (IOError (''No such file or directory: '' @ [CHR 0x27] @ ''/e'' @ [CHR 0x27]))]"
  by code_simp

text \<open>
  C10, amended.  The call of \<^verbatim>\<open>readtb\<close> gives a generator that has not started:
  nothing has been listed, spawned or read.  The work is done by the requests.  When
  there is room for a process and a root cannot be listed while the roots before it
  can be enumerated: if those roots hold fewer than \<open>num_procs\<close> paths, the first
  request raises the error that names the root, after spawning a process for each of
  those paths and before any record; and in any case, when \<^verbatim>\<open>select\<close> behaves, the
  requests return some records and the request after them raises that error.
\<close>

theorem readtb_call_is_lazy:
  "pc (readtb paths ignore_logs num_procs :: 'kv generator) = Unstarted
   \<and> trace (vars (readtb paths ignore_logs num_procs :: 'kv generator)) = []
   \<and> read_fds (vars (readtb paths ignore_logs num_procs :: 'kv generator)) = {}
   \<and> (0 < num_procs \<longrightarrow> roots_of paths = good @ bad # rest \<longrightarrow>
      enumeration_error w ignore_logs good = None \<longrightarrow> ls w bad = Inl e \<longrightarrow>
        (length (enumerated w ignore_logs good) < nat num_procs \<longrightarrow>
           (\<exists>g. readtb_next (w :: 'kv world) (readtb paths ignore_logs num_procs)
                   = Some (Raised (no_such_file bad), g)
               \<and> yields (trace (vars g)) = []
               \<and> map snd (spawns (trace (vars g)))
                   = map (dumptb_cmd w) (enumerated w ignore_logs good)))
        \<and> (select_ok w \<longrightarrow>
             (\<exists>kvs. outcomes w (readtb paths ignore_logs num_procs) (Suc (length kvs))
                      = Some (map Item kvs @ [Raised (no_such_file bad)]))))"
proof -
  let ?g0 = "readtb paths ignore_logs num_procs :: 'kv generator"
  have later: "(length (enumerated w ignore_logs good) < nat num_procs \<longrightarrow>
           (\<exists>g. readtb_next w ?g0 = Some (Raised (no_such_file bad), g)
               \<and> yields (trace (vars g)) = []
               \<and> map snd (spawns (trace (vars g)))
                   = map (dumptb_cmd w) (enumerated w ignore_logs good)))
        \<and> (select_ok w \<longrightarrow>
             (\<exists>kvs. outcomes w ?g0 (Suc (length kvs))
                      = Some (map Item kvs @ [Raised (no_such_file bad)])))"
    if pos: "0 < num_procs" and roots: "roots_of paths = good @ bad # rest"
      and good: "enumeration_error w ignore_logs good = None" and bad: "ls w bad = Inl e"
  proof -
    from enumerated_up_to_failure [OF good root_paths_unlisted [OF bad]] roots
    have files: "all_files w ?g0 = enumerated w ignore_logs good"
      and err: "all_error w ?g0 = Some (no_such_file bad)"
      by simp_all
    have first: "\<exists>g. readtb_next w ?g0 = Some (Raised (no_such_file bad), g)
               \<and> yields (trace (vars g)) = []
               \<and> map snd (spawns (trace (vars g)))
                   = map (dumptb_cmd w) (enumerated w ignore_logs good)"
      if few: "length (enumerated w ignore_logs good) < nat num_procs"
    proof -
      have v: "vars ?g0 = no_vars" by (simp add: readtb_def)
      from few files have few': "length (all_files w ?g0) < capacity ?g0" by simp
      from start_reaches_failure [OF v err few'] files obtain s' where
        st: "start w ?g0 = (Some (no_such_file bad), s')" and t: "tagged (trace s') = []"
        and sp: "map snd (spawns (trace s')) = map (dumptb_cmd w) (enumerated w ignore_logs good)"
        by auto
      from st have "readtb_next w ?g0
                      = Some (Raised (no_such_file bad), ?g0\<lparr>pc := Finished, vars := s'\<rparr>)"
        by (simp add: readtb_next_def readtb_def)
      with t sp show ?thesis by (simp add: yields_def)
    qed
    have any: "\<exists>kvs. outcomes w ?g0 (Suc (length kvs))
                      = Some (map Item kvs @ [Raised (no_such_file bad)])"
      if sel: "select_ok w"
    proof -
      from read_all_total [OF sel] obtain e' g where
        run: "read_all w paths ignore_logs num_procs = Some (yields (trace (vars g)), e', g)"
        and en: "ended w ?g0 e' g"
        by blast
      from pos have "0 < capacity ?g0" by simp
      from ended_spawned_all [OF en this] err have e': "e' = Some (no_such_file bad)" by simp
      from drain_outcomes_all [OF run [unfolded read_all_def]] e' show ?thesis
        by (auto simp: last_outcome_def)
    qed
    from first any show ?thesis by blast
  qed
  have "pc ?g0 = Unstarted \<and> trace (vars ?g0) = [] \<and> read_fds (vars ?g0) = {}"
    by (simp add: readtb_def no_vars_def)
  with later show ?thesis by blast
qed

theorem readtb_call_is_lazy_witness:
  "trace (vars (readtb (Paths [''/d'', ''/e'']) True 10 :: string generator)) = []
   \<and> (\<exists>g. readtb_next demo (readtb (Paths [''/d'', ''/e'']) True 10)
             = Some (Raised (no_such_file ''/e''), g)
          \<and> map snd (spawns (trace (vars g))) = [''hadoop jar hs.jar dumptb /d/part-0''])
   \<and> (\<exists>kvs. outcomes demo (readtb (Paths [''/d'', ''/e'']) True 10) (Suc (length kvs))
               = Some (map Item kvs @ [Raised (no_such_file ''/e'')]))"
proof -
  have sel: "select_ok demo" by (simp add: select_ok_def demo_def)
  have pos: "(0::int) < 10" by simp
  have roots: "roots_of (Paths [''/d'', ''/e'']) = [''/d''] @ ''/e'' # []"
    by (simp add: roots_of_def)
  have good: "enumeration_error demo True [''/d''] = None" by code_simp
  have files: "enumerated demo True [''/d''] = [''/d/part-0'']" by code_simp
  have bad: "ls demo ''/e'' = Inl (IOError ''Ran[hadoop fs -ls /e]: No such file'')"
    by code_simp
  have cmd: "dumptb_cmd demo p = ''hadoop jar hs.jar dumptb '' @ p" for p
    by (simp add: dumptb_cmd_def demo_def)
  have few: "length (enumerated demo True [''/d'']) < nat 10" by (simp only: files) simp
  note T = readtb_call_is_lazy
             [of "Paths [''/d'', ''/e'']" True 10 "[''/d'']" "''/e''" "[]" demo
                 "IOError ''Ran[hadoop fs -ls /e]: No such file''"]
  note L = T [THEN conjunct2, THEN conjunct2, THEN conjunct2, rule_format, OF pos roots good bad]
  from L [THEN conjunct1, rule_format, OF few] obtain g where
    nx: "readtb_next demo (readtb (Paths [''/d'', ''/e'']) True 10)
           = Some (Raised (no_such_file ''/e''), g)"
    and sp: "map snd (spawns (trace (vars g))) = map (dumptb_cmd demo) (enumerated demo True [''/d''])"
    by blast
  from sp have sp': "map snd (spawns (trace (vars g))) = [''hadoop jar hs.jar dumptb /d/part-0'']"
    by (simp only: files) (simp add: cmd)
  note any = L [THEN conjunct2, rule_format, OF sel]
  note call = T [THEN conjunct2, THEN conjunct1]
  from nx sp' have first:
    "\<exists>g. readtb_next demo (readtb (Paths [''/d'', ''/e'']) True 10)
             = Some (Raised (no_such_file ''/e''), g)
          \<and> map snd (spawns (trace (vars g))) = [''hadoop jar hs.jar dumptb /d/part-0'']"
    by (intro exI [of _ g] conjI)
  from call first any show ?thesis by (intro conjI)
qed

subsection \<open>Files that are logs\<close>

lemma py_filter_keep_file:
  "\<forall>p\<in>set ps. basename p \<noteq> [] \<Longrightarrow>
   py_filter keep_file ps = Inr (filter (\<lambda>p. hd (basename p) \<noteq> CHR ''_'') ps)"
proof (induction ps)
  case Nil
  then show ?case by simp
next
  case (Cons p ps)
  then obtain c cs where "basename p = c # cs" by (cases "basename p") auto
  with Cons show ?case by (simp add: keep_file_def)
qed

text \<open>A path whose basename is empty makes the filter raise.\<close>

lemma py_filter_empty_basename:
  "basename p = [] \<Longrightarrow> py_filter keep_file (p # ps) = Inl IndexError"
  by (simp add: keep_file_def)

text \<open>
  For a root whose listing gives paths that all have a basename: with \<open>ignore_logs\<close> a
  whole run spawns a dump process for each listed path whose basename does not begin
  with an underscore, in the order of the listing, and for no other; without
  \<open>ignore_logs\<close> it spawns one for every listed path.
\<close>

lemma readtb_filters_named_files:
  assumes "select_ok w" and "0 < num_procs"
      and "ls w root_path = Inr ps"
      and "\<forall>p\<in>set ps. basename p \<noteq> []"
  shows "(\<exists>g. read_all w (Path root_path) True num_procs
                = Some (yields (trace (vars g)), None, g)
            \<and> map snd (spawns (trace (vars g)))
                = map (dumptb_cmd w) (filter (\<lambda>p. hd (basename p) \<noteq> CHR ''_'') ps))
       \<and> (\<exists>g. read_all w (Path root_path) False num_procs
                = Some (yields (trace (vars g)), None, g)
            \<and> map snd (spawns (trace (vars g))) = map (dumptb_cmd w) ps)"
proof -
  have args: "\<exists>g. read_all w (Path root_path) ig num_procs
                = Some (yields (trace (vars g)), None, g)
            \<and> map snd (spawns (trace (vars g))) = map (dumptb_cmd w) qs"
    if "root_paths w ig root_path = Inr qs" for ig qs
  proof -
    let ?g0 = "readtb (Path root_path) ig num_procs :: 'a generator"
    from read_all_total [OF assms(1)] obtain e g where
      run: "read_all w (Path root_path) ig num_procs = Some (yields (trace (vars g)), e, g)"
      and en: "ended w ?g0 e g"
      by blast
    from assms(2) have pos: "0 < capacity ?g0" by simp
    from that have "enumerated w ig (roots_of (Path root_path)) = qs"
      and "enumeration_error w ig (roots_of (Path root_path)) = None"
      by (simp_all add: roots_of_def)
    with ended_spawned_all [OF en pos] run show ?thesis by auto
  qed
  from assms(3) py_filter_keep_file [OF assms(4)]
  have "root_paths w True root_path = Inr (filter (\<lambda>p. hd (basename p) \<noteq> CHR ''_'') ps)"
    by (simp add: root_paths_def)
  moreover from assms(3) have "root_paths w False root_path = Inr ps"
    by (simp add: root_paths_def)
  ultimately show ?thesis using args by blast
qed

text \<open>
  C6, at a listing that names a directory with a slash at its end: the basename of that
  path is empty, it does not begin with an underscore, and yet with \<open>ignore_logs\<close> the
  run raises \<^verbatim>\<open>IndexError\<close> and spawns no process at all, not even for the data
  file; without \<open>ignore_logs\<close> both paths are attempted.
\<close>

theorem readtb_index_error_on_empty_basename:
  "ls demo_more ''/t'' = Inr [''/t/sub/'', ''/t/part-0'']
   \<and> summary (read_all demo_more (Path ''/t'') True 10) = Some ([], Some IndexError, [])
   \<and> summary (read_all demo_more (Path ''/t'') False 10)
       = Some ([], None, [(0, ''hadoop jar hs.jar dumptb /t/sub/''),
                          (1, ''hadoop jar hs.jar dumptb /t/part-0'')])"
  by code_simp

subsection \<open>The exit code of a dump process is not looked at\<close>

lemma alike_refl [simp]: "alike s s"
  by (simp add: alike_def)

lemma alike_sym: "alike s s' \<Longrightarrow> alike s' s"
  by (simp add: alike_def)

lemma agree_sym: "agree w w' \<Longrightarrow> agree w' w"
  by (simp add: agree_def)

lemma agree_cmds:
  assumes "agree w w'"
  shows "dumptb_cmd w' p = dumptb_cmd w p" and "dumped w' c = dumped w c"
  using assms by (simp_all add: agree_def dumptb_cmd_def dumped_def)

lemma open_tb_alike:
  "agree w w' \<Longrightarrow> alike s s' \<Longrightarrow> alike (open_tb w p s) (open_tb w' p s')"
  by (simp add: alike_def open_tb_def Let_def agree_cmds)

lemma path_gen_next_alike:
  "agree w w' \<Longrightarrow> alike s s' \<Longrightarrow>
   fst (path_gen_next w' ig pg s') = fst (path_gen_next w ig pg s)
   \<and> alike (snd (path_gen_next w ig pg s)) (snd (path_gen_next w' ig pg s'))"
proof (induction w ig pg s arbitrary: s' rule: path_gen_next.induct)
  case (1 w ig cur_path all_paths roots s)
  then show ?case by (simp add: open_tb_alike)
next
  case (2 w ig s)
  then show ?case by simp
next
  case (3 w ig root_path roots s)
  let ?s1 = "s\<lparr>trace := trace s @ [Listed root_path]\<rparr>"
  let ?s1' = "s'\<lparr>trace := trace s' @ [Listed root_path]\<rparr>"
  from "3.prems" have ls: "ls w' root_path = ls w root_path" by (simp add: agree_def)
  from "3.prems" have a1: "alike ?s1 ?s1'" by (simp add: alike_def)
  show ?case
  proof (cases "ls w root_path")
    case (Inl e)
    with ls a1 show ?thesis by (simp add: Let_def)
  next
    case (Inr all_paths)
    show ?thesis
    proof (cases ig)
      case False
      from "3.IH"(2) [OF refl Inr False "3.prems"(1) a1] Inr ls False
      show ?thesis by (simp add: Let_def)
    next
      case True
      show ?thesis
      proof (cases "py_filter keep_file all_paths")
        case (Inl e)
        with Inr ls True a1 show ?thesis by (simp add: Let_def)
      next
        case (Inr kept)
        from "3.IH"(1) [OF refl \<open>ls w root_path = Inr all_paths\<close> True Inr "3.prems"(1) a1]
          Inr \<open>ls w root_path = Inr all_paths\<close> ls True
        show ?thesis by (simp add: Let_def)
      qed
    qed
  qed
qed

lemma advance_alike:
  assumes "agree w w'" and "alike s s'"
  shows "fst (advance w' ig s') = fst (advance w ig s)
       \<and> alike (snd (advance w ig s)) (snd (advance w' ig s'))"
proof (cases "path_gen s")
  case None
  with assms show ?thesis by (simp add: advance_def alike_def)
next
  case (Some pg)
  with assms have pg': "path_gen s' = Some pg" by (simp add: alike_def)
  obtain r1 s1 where n: "path_gen_next w ig pg s = (r1, s1)"
    by (cases "path_gen_next w ig pg s") blast
  obtain r1' s1' where n': "path_gen_next w' ig pg s' = (r1', s1')"
    by (cases "path_gen_next w' ig pg s'") blast
  from path_gen_next_alike [OF assms, of ig pg] n n'
  have r: "r1' = r1" and a: "alike s1 s1'" by simp_all
  from a have "alike (s1\<lparr>path_gen := x\<rparr>) (s1'\<lparr>path_gen := x\<rparr>)" for x
    by (simp add: alike_def)
  with Some pg' n n' r a show ?thesis
    by (cases r1) (simp_all add: advance_def)
qed

lemma fill_alike:
  "agree w w' \<Longrightarrow> alike s s' \<Longrightarrow>
   fst (fill w' ig n s') = fst (fill w ig n s)
   \<and> alike (snd (fill w ig n s)) (snd (fill w' ig n s'))"
proof (induction n arbitrary: s s')
  case 0
  then show ?case by simp
next
  case (Suc n)
  obtain r1 s1 where a: "advance w ig s = (r1, s1)" by (cases "advance w ig s") blast
  obtain r1' s1' where a': "advance w' ig s' = (r1', s1')" by (cases "advance w' ig s'") blast
  from advance_alike [OF Suc.prems, of ig] a a'
  have r: "r1' = r1" and al: "alike s1 s1'" by simp_all
  show ?case
  proof (cases r1)
    case None
    with Suc.IH [OF Suc.prems(1) al] a a' r show ?thesis by simp
  next
    case (Some e)
    with a a' r al show ?thesis by simp
  qed
qed

lemma for_loop_alike:
  "agree w w' \<Longrightarrow> alike s s' \<Longrightarrow>
   fst (for_loop w' ig cur s') = fst (for_loop w ig cur s)
   \<and> alike (snd (for_loop w ig cur s)) (snd (for_loop w' ig cur s'))"
proof (induction cur arbitrary: s s')
  case Nil
  then show ?case by simp
next
  case (Cons fd cur)
  from Cons.prems have eq: "procs s' = procs s" "tb_fps s' = tb_fps s" "read_fds s' = read_fds s"
    by (simp_all add: alike_def)
  show ?case
  proof (cases "procs s fd")
    case None
    with Cons.prems eq show ?thesis by simp
  next
    case (Some p)
    show ?thesis
    proof (cases "tb_fps s fd")
      case None
      with Some Cons.prems eq show ?thesis by simp
    next
      case tp: (Some tp)
      show ?thesis
      proof (cases tp)
        case (Cons kv unr)
        with Some tp Cons.prems eq show ?thesis by (simp add: alike_def)
      next
        case Nil
        show ?thesis
        proof (cases "fd \<in> read_fds s")
          case False
          with Nil Some tp Cons.prems eq show ?thesis by (simp add: alike_def Let_def)
        next
          case True
          define t where "t = s\<lparr>trace := trace s @ [Waited fd (rcode (hadoop w p))],
              procs := (procs s)(fd := None), tb_fps := (tb_fps s)(fd := None),
              read_fds := read_fds s - {fd}\<rparr>"
          define t' where "t' = s'\<lparr>trace := trace s' @ [Waited fd (rcode (hadoop w' p))],
              procs := (procs s')(fd := None), tb_fps := (tb_fps s')(fd := None),
              read_fds := read_fds s' - {fd}\<rparr>"
          from Cons.prems have al: "alike t t'" by (simp add: alike_def t_def t'_def)
          obtain r1 s1 where a: "advance w ig t = (r1, s1)" by (cases "advance w ig t") blast
          obtain r1' s1' where a': "advance w' ig t' = (r1', s1')"
            by (cases "advance w' ig t'") blast
          from advance_alike [OF Cons.prems(1) al, of ig] a a'
          have r: "r1' = r1" and al1: "alike s1 s1'" by simp_all
          have f: "for_loop w ig (fd # cur) s
                     = (case r1 of Some e \<Rightarrow> (FRaise e, s1) | None \<Rightarrow> for_loop w ig cur s1)"
            using Some tp Nil True a by (simp add: Let_def t_def)
          have f': "for_loop w' ig (fd # cur) s'
                     = (case r1 of Some e \<Rightarrow> (FRaise e, s1') | None \<Rightarrow> for_loop w' ig cur s1')"
            using Some tp Nil True a' r eq by (simp add: Let_def t'_def)
          show ?thesis
          proof (cases r1)
            case None
            with Cons.IH [OF Cons.prems(1) al1] f f' show ?thesis by simp
          next
            case (Some e)
            with f f' al1 show ?thesis by simp
          qed
        qed
      qed
    qed
  qed
qed

lemma while_loop_alike_all:
  assumes "while_loop w ig s = Some y"
  shows "\<forall>w' s'. agree w w' \<longrightarrow> alike s s' \<longrightarrow>
           (\<exists>t'. while_loop w' ig s' = Some (fst y, t') \<and> alike (snd y) t')"
  using assms
proof (rule while_loop.raw_induct
         [where P = "\<lambda>w ig s y. \<forall>w' s'. agree w w' \<longrightarrow> alike s s' \<longrightarrow>
           (\<exists>t'. while_loop w' ig s' = Some (fst y, t') \<and> alike (snd y) t')",
          rotated])
  fix loop :: "'a world \<Rightarrow> bool \<Rightarrow> 'a rstate \<Rightarrow> ('a for_result \<times> 'a rstate) option"
  fix w ig s y
  assume IH: "\<And>w ig s y. loop w ig s = Some y \<Longrightarrow>
           \<forall>w' s'. agree w w' \<longrightarrow> alike s s' \<longrightarrow>
             (\<exists>t'. while_loop w' ig s' = Some (fst y, t') \<and> alike (snd y) t')"
  assume body: "(if read_fds s = {} then Some (FDone, s)
      else let cur_fds = ready w (rounds s) (read_fds s)
           in case for_loop w ig cur_fds (s\<lparr>rounds := Suc (rounds s)\<rparr>) of
              (FYield kv rest, s') \<Rightarrow> Some (FYield kv rest, s')
              | (FRaise e, s') \<Rightarrow> Some (FRaise e, s')
              | (FDone, s') \<Rightarrow> loop w ig s') = Some y"
  show "\<forall>w' s'. agree w w' \<longrightarrow> alike s s' \<longrightarrow>
           (\<exists>t'. while_loop w' ig s' = Some (fst y, t') \<and> alike (snd y) t')"
  proof (intro allI impI)
    fix w' s'
    assume ag: "agree w w'" and al: "alike s s'"
    from al have rf: "read_fds s' = read_fds s" and rd: "rounds s' = rounds s"
      by (simp_all add: alike_def)
    from ag have ready: "ready w' = ready w" by (simp add: agree_def)
    show "\<exists>t'. while_loop w' ig s' = Some (fst y, t') \<and> alike (snd y) t'"
    proof (cases "read_fds s = {}")
      case True
      with body have "y = (FDone, s)" by simp
      moreover from True rf have "while_loop w' ig s' = Some (FDone, s')"
        by (subst while_loop.simps) simp
      ultimately show ?thesis using al by simp
    next
      case False
      define cur where "cur = ready w (rounds s) (read_fds s)"
      define s0 where "s0 = s\<lparr>rounds := Suc (rounds s)\<rparr>"
      define s0' where "s0' = s'\<lparr>rounds := Suc (rounds s')\<rparr>"
      from al have al0: "alike s0 s0'" by (simp add: alike_def s0_def s0'_def)
      obtain r t where f: "for_loop w ig cur s0 = (r, t)" by (cases "for_loop w ig cur s0") blast
      obtain r' t' where f': "for_loop w' ig cur s0' = (r', t')"
        by (cases "for_loop w' ig cur s0'") blast
      from for_loop_alike [OF ag al0, of ig cur] f f'
      have r: "r' = r" and alt: "alike t t'" by simp_all
      have unfold': "while_loop w' ig s' =
         (case (r, t') of
            (FDone, u) \<Rightarrow> while_loop w' ig u
          | (FYield kv rest, u) \<Rightarrow> Some (FYield kv rest, u)
          | (FRaise e, u) \<Rightarrow> Some (FRaise e, u))"
        using False rf rd ready f' r
        by (subst while_loop.simps) (simp add: Let_def cur_def s0'_def)
      show ?thesis
      proof (cases r)
        case FDone
        with body False f have "loop w ig t = Some y" by (simp add: Let_def cur_def s0_def)
        from IH [OF this] ag alt obtain u' where
          "while_loop w' ig t' = Some (fst y, u')" "alike (snd y) u'"
          by blast
        with unfold' FDone show ?thesis by simp
      next
        case (FYield kv rest)
        with body False f have "y = (FYield kv rest, t)" by (simp add: Let_def cur_def s0_def)
        with unfold' FYield alt show ?thesis by simp
      next
        case (FRaise e)
        with body False f have "y = (FRaise e, t)" by (simp add: Let_def cur_def s0_def)
        with unfold' FRaise alt show ?thesis by simp
      qed
    qed
  qed
qed

lemma while_loop_alike:
  "while_loop w ig s = Some (r, t) \<Longrightarrow> agree w w' \<Longrightarrow> alike s s' \<Longrightarrow>
   \<exists>t'. while_loop w' ig s' = Some (r, t') \<and> alike t t'"
  using while_loop_alike_all [of w ig s "(r, t)"] by simp

lemma suspend_alike:
  assumes "same_args g g'" and "alike t t'"
  shows "fst (suspend g' (r, t')) = fst (suspend g (r, t))
       \<and> galike (snd (suspend g (r, t))) (snd (suspend g' (r, t')))"
  using assms by (cases r) (simp_all add: suspend_def galike_def same_args_def)

lemma readtb_next_alike:
  assumes nx: "readtb_next w g = Some (r, g1)" and ag: "agree w w'" and ga: "galike g g'"
  shows "\<exists>g1'. readtb_next w' g' = Some (r, g1') \<and> galike g1 g1'"
proof -
  from ga have args: "same_args g g'" and pc: "pc g' = pc g" and al: "alike (vars g) (vars g')"
    by (simp_all add: galike_def)
  from args have ig: "arg_ignore_logs g' = arg_ignore_logs g"
    and np: "arg_num_procs g' = arg_num_procs g" and ap: "arg_paths g' = arg_paths g"
    by (simp_all add: same_args_def)
  have after_loop: ?thesis
    if wl: "while_loop w (arg_ignore_logs g) t = Some y" and res: "(r, g1) = suspend g y"
      and alt: "alike t t'"
      and nx': "readtb_next w' g' = map_option (suspend g') (while_loop w' (arg_ignore_logs g) t')"
    for t t' y
  proof -
    obtain r2 u where y: "y = (r2, u)" by (cases y)
    from while_loop_alike [OF wl [unfolded y] ag alt] obtain u' where
      wl': "while_loop w' (arg_ignore_logs g) t' = Some (r2, u')" and alu: "alike u u'"
      by blast
    from suspend_alike [OF args alu, of r2] res y nx' wl' show ?thesis
      by (cases "suspend g' (r2, u')") (auto simp: prod_eq_iff)
  qed
  show ?thesis
  proof (cases "pc g")
    case Unstarted
    let ?s0 = "(vars g)\<lparr>path_gen := Some ([], roots_of (arg_paths g))\<rparr>"
    let ?s0' = "(vars g')\<lparr>path_gen := Some ([], roots_of (arg_paths g))\<rparr>"
    from al have al0: "alike ?s0 ?s0'" by (simp add: alike_def)
    obtain r0 t where st: "start w g = (r0, t)" by (cases "start w g") blast
    obtain r0' t' where st': "start w' g' = (r0', t')" by (cases "start w' g'") blast
    from fill_alike [OF ag al0, of "arg_ignore_logs g" "nat (arg_num_procs g)"] st st' ig np ap
    have r0: "r0' = r0" and alt: "alike t t'" by (simp_all add: start_def)
    show ?thesis
    proof (cases r0)
      case (Some e)
      with nx Unstarted st have "r = Raised e" "g1 = g\<lparr>pc := Finished, vars := t\<rparr>"
        by (simp_all add: readtb_next_def)
      moreover from Some Unstarted pc st' r0
      have "readtb_next w' g' = Some (Raised e, g'\<lparr>pc := Finished, vars := t'\<rparr>)"
        by (simp add: readtb_next_def)
      ultimately show ?thesis using args alt by (simp add: galike_def same_args_def)
    next
      case None
      with nx Unstarted st obtain y where
        wl: "while_loop w (arg_ignore_logs g) t = Some y" and res: "(r, g1) = suspend g y"
        by (auto simp: readtb_next_def)
      from None Unstarted pc st' r0 ig
      have nx': "readtb_next w' g' = map_option (suspend g') (while_loop w' (arg_ignore_logs g) t')"
        by (simp add: readtb_next_def)
      from wl res alt nx' show ?thesis by (rule after_loop)
    qed
  next
    case (Suspended rest)
    obtain r1 t where f: "for_loop w (arg_ignore_logs g) rest (vars g) = (r1, t)"
      by (cases "for_loop w (arg_ignore_logs g) rest (vars g)") blast
    obtain r1' t' where f': "for_loop w' (arg_ignore_logs g) rest (vars g') = (r1', t')"
      by (cases "for_loop w' (arg_ignore_logs g) rest (vars g')") blast
    from for_loop_alike [OF ag al, of "arg_ignore_logs g" rest] f f'
    have r1: "r1' = r1" and alt: "alike t t'" by simp_all
    show ?thesis
    proof (cases r1)
      case FDone
      with nx Suspended f obtain y where
        wl: "while_loop w (arg_ignore_logs g) t = Some y" and res: "(r, g1) = suspend g y"
        by (auto simp: readtb_next_def)
      from FDone Suspended pc f' r1 ig
      have nx': "readtb_next w' g' = map_option (suspend g') (while_loop w' (arg_ignore_logs g) t')"
        by (simp add: readtb_next_def)
      from wl res alt nx' show ?thesis by (rule after_loop)
    next
      case (FYield kv rest')
      with nx Suspended f have res: "(r, g1) = suspend g (r1, t)"
        by (simp add: readtb_next_def)
      from FYield Suspended pc f' r1 ig
      have "readtb_next w' g' = Some (suspend g' (r1, t'))"
        by (simp add: readtb_next_def)
      with suspend_alike [OF args alt, of r1] res show ?thesis
        by (cases "suspend g' (r1, t')") (auto simp: prod_eq_iff)
    next
      case (FRaise e)
      with nx Suspended f have res: "(r, g1) = suspend g (r1, t)"
        by (simp add: readtb_next_def)
      from FRaise Suspended pc f' r1 ig
      have "readtb_next w' g' = Some (suspend g' (r1, t'))"
        by (simp add: readtb_next_def)
      with suspend_alike [OF args alt, of r1] res show ?thesis
        by (cases "suspend g' (r1, t')") (auto simp: prod_eq_iff)
    qed
  next
    case Finished
    with nx have "r = StopIteration" "g1 = g" by (simp_all add: readtb_next_def)
    moreover from Finished pc have "readtb_next w' g' = Some (StopIteration, g')"
      by (simp add: readtb_next_def)
    ultimately show ?thesis using ga by simp
  qed
qed

lemma drain_alike_all:
  assumes "drain w g acc = Some y"
  shows "\<forall>w' g'. agree w w' \<longrightarrow> galike g g' \<longrightarrow>
           (\<exists>gf'. drain w' g' acc = Some (fst y, fst (snd y), gf'))"
  using assms
proof (rule drain.raw_induct
         [where P = "\<lambda>w g acc y. \<forall>w' g'. agree w w' \<longrightarrow> galike g g' \<longrightarrow>
           (\<exists>gf'. drain w' g' acc = Some (fst y, fst (snd y), gf'))",
          rotated])
  fix dr :: "'a world \<Rightarrow> 'a generator \<Rightarrow> 'a list
               \<Rightarrow> ('a list \<times> error option \<times> 'a generator) option"
  fix w g acc y
  assume IH: "\<And>w g acc y. dr w g acc = Some y \<Longrightarrow>
           \<forall>w' g'. agree w w' \<longrightarrow> galike g g' \<longrightarrow>
             (\<exists>gf'. drain w' g' acc = Some (fst y, fst (snd y), gf'))"
  assume body: "(case readtb_next w g of None \<Rightarrow> None
      | Some (Item kv, g') \<Rightarrow> dr w g' (acc @ [kv])
      | Some (StopIteration, g') \<Rightarrow> Some (acc, None, g')
      | Some (Raised e, g') \<Rightarrow> Some (acc, Some e, g')) = Some y"
  show "\<forall>w' g'. agree w w' \<longrightarrow> galike g g' \<longrightarrow>
           (\<exists>gf'. drain w' g' acc = Some (fst y, fst (snd y), gf'))"
  proof (intro allI impI)
    fix w' g'
    assume ag: "agree w w'" and ga: "galike g g'"
    from body obtain r g1 where nx: "readtb_next w g = Some (r, g1)"
      by (cases "readtb_next w g") auto
    from readtb_next_alike [OF nx ag ga] obtain g1' where
      nx': "readtb_next w' g' = Some (r, g1')" and ga1: "galike g1 g1'"
      by blast
    show "\<exists>gf'. drain w' g' acc = Some (fst y, fst (snd y), gf')"
    proof (cases r)
      case (Item kv)
      with body nx have "dr w g1 (acc @ [kv]) = Some y" by simp
      from IH [OF this] ag ga1 obtain gf' where
        "drain w' g1' (acc @ [kv]) = Some (fst y, fst (snd y), gf')"
        by blast
      with nx' Item have "drain w' g' acc = Some (fst y, fst (snd y), gf')"
        by (subst drain.simps) simp
      then show ?thesis by blast
    next
      case StopIteration
      with body nx have "y = (acc, None, g1)" by simp
      moreover from nx' StopIteration have "drain w' g' acc = Some (acc, None, g1')"
        by (subst drain.simps) simp
      ultimately show ?thesis by simp
    next
      case (Raised e)
      with body nx have "y = (acc, Some e, g1)" by simp
      moreover from nx' Raised have "drain w' g' acc = Some (acc, Some e, g1')"
        by (subst drain.simps) simp
      ultimately show ?thesis by simp
    qed
  qed
qed

lemma visible_alike:
  assumes "agree w w'"
  shows "visible (read_all w' paths ig n) = visible (read_all w paths ig n)"
proof -
  have ga: "galike (readtb paths ig n) (readtb paths ig n :: 'a generator)"
    by (simp add: galike_def)
  have one: "visible (read_all v' paths ig n) = Some (out, e)"
    if "agree v v'" and "read_all v paths ig n = Some (out, e, gf)" for v v' :: "'a world" and out e gf
    using drain_alike_all [of v "readtb paths ig n" "[]" "(out, e, gf)"] that ga
    by (auto simp: read_all_def visible_def)
  show ?thesis
  proof (cases "read_all w paths ig n")
    case (Some y)
    obtain out e gf where y: "y = (out, e, gf)" by (cases y)
    from one [OF assms Some [unfolded y]] Some y show ?thesis by (simp add: visible_def)
  next
    case None
    show ?thesis
    proof (cases "read_all w' paths ig n")
      case None
      with \<open>read_all w paths ig n = None\<close> show ?thesis by simp
    next
      case (Some y)
      obtain out e gf where y: "y = (out, e, gf)" by (cases y)
      from one [OF agree_sym [OF assms] Some [unfolded y]] None show ?thesis
        by (simp add: visible_def)
    qed
  qed
qed

lemma ls_cmd_is_no_dump: "''hadoop fs -ls '' @ r \<noteq> dumptb_cmd w p"
  by (simp add: dumptb_cmd_def)

lemma agree_with_exit_code: "agree w (with_exit_code w p rc)"
  using ls_cmd_is_no_dump [of _ w p]
  by (simp add: agree_def with_exit_code_def ls_def checked_hadoop_fs_command_def Let_def
                dumptb_cmd_def)

text \<open>
  One visit of an open descriptor in the loop over the ready descriptors: the
  descriptor stays open when its decoder has a record, and is retired when the decoder
  is at the end of the stream.
\<close>

lemma visit_retires_at_end_of_stream:
  assumes p: "procs s fd = Some p" and tp: "tb_fps s fd = Some unr"
      and fd: "fd \<in> read_fds s" and lt: "fd < next_fd s"
  shows "fd \<in> read_fds (snd (for_loop w ig [fd] s)) \<longleftrightarrow> unr \<noteq> []"
proof (cases unr)
  case (Cons kv rest)
  with p tp fd show ?thesis by simp
next
  case Nil
  define t where "t = s\<lparr>trace := trace s @ [Waited fd (rcode (hadoop w p))],
      procs := (procs s)(fd := None), tb_fps := (tb_fps s)(fd := None),
      read_fds := read_fds s - {fd}\<rparr>"
  obtain r1 s1 where a: "advance w ig t = (r1, s1)" by (cases "advance w ig t") blast
  have "fd \<notin> read_fds s1"
  proof (cases "queue w ig t")
    case Nil
    from advance_empty [OF Nil] a have "read_fds s1 = read_fds t" by auto
    then show ?thesis by (simp add: t_def)
  next
    case (Cons q qs)
    from advance_backlog [OF Cons] a have "read_fds s1 = insert (next_fd t) (read_fds t)"
      by auto
    with lt show ?thesis by (simp add: t_def)
  qed
  moreover have "snd (for_loop w ig [fd] s) = s1"
    using p tp Nil fd a by (cases r1) (simp_all add: Let_def t_def)
  ultimately show ?thesis using Nil by simp
qed

text \<open>
  C8.  Change the exit code of the dump process of any one path and leave the bytes it
  writes as they are: a whole run gives the same records in the same order and ends
  the same way, with the same error or with none (and it does not return in the one
  case exactly when it does not in the other).  And one visit of an open descriptor
  retires it exactly when its decoder is at the end of the stream.
\<close>

theorem readtb_ignores_exit_status:
  "visible (read_all (with_exit_code w cur_path rc) paths ignore_logs num_procs)
     = visible (read_all w paths ignore_logs num_procs)
   \<and> (procs s fd = Some p \<longrightarrow> tb_fps s fd = Some unr \<longrightarrow> fd \<in> read_fds s \<longrightarrow> fd < next_fd s \<longrightarrow>
        (fd \<in> read_fds (snd (for_loop w ignore_logs [fd] s)) \<longleftrightarrow> unr \<noteq> []))"
  using visible_alike [OF agree_with_exit_code, of w cur_path rc paths ignore_logs num_procs]
        visit_retires_at_end_of_stream [of s fd p unr w ignore_logs]
  by blast

theorem readtb_ignores_exit_status_witness:
  "visible (read_all (with_exit_code demo ''/d/part-0'' 1) (Path ''/d'') True 10)
     = Some ([''a'', ''b''], None)
   \<and> 0 \<notin> read_fds (snd (for_loop demo True [0]
            (no_vars\<lparr>read_fds := {0}, procs := [0 \<mapsto> ''hadoop jar hs.jar dumptb /d/part-0''],
                      tb_fps := [0 \<mapsto> []], next_fd := 1\<rparr>)))"
proof -
  let ?s = "no_vars\<lparr>read_fds := {0}, procs := [0 \<mapsto> ''hadoop jar hs.jar dumptb /d/part-0''],
                      tb_fps := [0 \<mapsto> []], next_fd := 1\<rparr> :: string rstate"
  have v: "visible (read_all demo (Path ''/d'') True 10) = Some ([''a'', ''b''], None)"
    by code_simp
  have a: "procs ?s 0 = Some ''hadoop jar hs.jar dumptb /d/part-0''" by simp
  have b: "tb_fps ?s 0 = Some []" by simp
  have c: "0 \<in> read_fds ?s" by simp
  have d: "0 < next_fd ?s" by simp
  from readtb_ignores_exit_status
         [of demo "''/d/part-0''" 1 "Path ''/d''" True 10 ?s 0
             "''hadoop jar hs.jar dumptb /d/part-0''" "[]"]
       v a b c d
  show ?thesis by simp
qed

end
